theory Spec2Isabelle
  imports Main
begin

text \<open>
  The scheduling backend of the Bril trace scheduler: the dependence graph of a trace
  (dataflow), the priorities (assignDagPriority), the list scheduler (listSchedule) and the
  materialization of a bundle (toGroup). The source file dataflow.ts holds two versions of the
  module; the functions modelled here are those of the first, current one. The older version
  has no toGroup, builds nodes only for instructions with a destination, and registers the
  writer of a destination after the loop over the arguments instead of before it.
\<close>

section \<open>The Bril instruction vocabulary (bril.ts)\<close>

type_synonym ident = string

datatype bril_type = TInt | TBool

text \<open>A constant's literal: a number or a boolean. Only integer literals are modelled.\<close>

datatype bril_value = NumV int | BoolV bool

datatype effect_opcode = Br | Jmp | Print | Ret

datatype value_opcode =
    OpAdd | OpMul | OpSub | OpDiv | OpId | OpNop
  | OpEq | OpLt | OpGt | OpGe | OpLe | OpNot | OpAnd | OpOr

datatype effect_operation = EffectOp (eop: effect_opcode) (eargs: "ident list")

text \<open>
  A group: \<open>conds\<close>, \<open>instrs\<close> and \<open>failLabel\<close>. In dataflow.ts the conditions are
  identifiers, pushed as \<open>instr.effect.args[0]\<close>; that read yields \<open>undefined\<close> on an empty
  argument array, which is the \<open>None\<close> of \<open>ident option\<close>.
\<close>

datatype 'i group = Group (conds: "ident option list") (instrs: "'i list") (failLabel: ident)

text \<open>
  Modelled from the spec: the declaration of the instruction with \<open>op === 'trace'\<close> is not
  part of the available bril.ts. It is a conditional-branch guard recorded in a trace: toGroup
  reads exactly its fields \<open>effect\<close> (an effect operation) and \<open>failLabel\<close> (the target on
  failure), so the constructor \<open>Trace\<close> carries these two and has neither \<open>dest\<close> nor
  \<open>args\<close> of its own.
\<close>

datatype instruction =
    Effect effect_operation
  | ValueOperation value_opcode "ident list" ident bril_type
  | Constant bril_value ident bril_type
  | Trace effect_operation ident
  | GroupI "instruction group"

text \<open>\<open>'dest' in instr\<close> and \<open>instr.dest\<close>.\<close>

fun dest_of :: "instruction \<Rightarrow> ident option" where
  "dest_of (ValueOperation _ _ d _) = Some d"
| "dest_of (Constant _ d _) = Some d"
| "dest_of _ = None"

definition has_dest :: "instruction \<Rightarrow> bool" where
  "has_dest i = (dest_of i \<noteq> None)"

text \<open>\<open>'args' in instr\<close> and \<open>instr.args\<close>.\<close>

fun args_of :: "instruction \<Rightarrow> ident list option" where
  "args_of (Effect e) = Some (eargs e)"
| "args_of (ValueOperation _ as _ _) = Some as"
| "args_of _ = None"

text \<open>\<open>'conds' in instr\<close>.\<close>

fun is_group :: "instruction \<Rightarrow> bool" where
  "is_group (GroupI _) = True"
| "is_group _ = False"

text \<open>\<open>xs[0]\<close> of JavaScript: \<open>undefined\<close> on the empty array.\<close>

fun index0 :: "'a list \<Rightarrow> 'a option" where
  "index0 [] = None"
| "index0 (x # _) = Some x"

section \<open>toGroup\<close>

datatype error = CannotNestGroups

text \<open>
  The loop of toGroup over the bundle, with its three accumulators. A group in the bundle
  throws; a trace instruction pushes the first argument of a \<open>br\<close> effect and always
  overwrites the fail label; any other instruction with a destination is pushed to instrs.
\<close>

fun toGroup_loop ::
  "instruction list \<Rightarrow> ident option list \<Rightarrow> instruction list \<Rightarrow> ident \<Rightarrow> error + instruction group"
where
  "toGroup_loop [] cs ins fl = Inr (Group cs ins fl)"
| "toGroup_loop (GroupI g # rest) cs ins fl = Inl CannotNestGroups"
| "toGroup_loop (Trace eff lbl # rest) cs ins fl =
     toGroup_loop rest (case eop eff of Br \<Rightarrow> cs @ [index0 (eargs eff)] | _ \<Rightarrow> cs) ins lbl"
| "toGroup_loop (i # rest) cs ins fl =
     (if has_dest i then toGroup_loop rest cs (ins @ [i]) fl else toGroup_loop rest cs ins fl)"

definition toGroup :: "instruction list \<Rightarrow> error + instruction group" where
  "toGroup trace = toGroup_loop trace [] [] []"

text \<open>Vocabulary for the statements about toGroup.\<close>

fun is_trace :: "instruction \<Rightarrow> bool" where
  "is_trace (Trace _ _) = True"
| "is_trace _ = False"

fun is_br_guard :: "instruction \<Rightarrow> bool" where
  "is_br_guard (Trace eff _) = (eop eff = Br)"
| "is_br_guard _ = False"

fun tested_ident :: "instruction \<Rightarrow> ident option" where
  "tested_ident (Trace eff _) = index0 (eargs eff)"
| "tested_ident _ = None"

fun fail_target :: "instruction \<Rightarrow> ident" where
  "fail_target (Trace _ lbl) = lbl"
| "fail_target _ = []"

definition last_fail_target :: "ident \<Rightarrow> instruction list \<Rightarrow> ident" where
  "last_fail_target fl xs = (if xs = [] then fl else fail_target (last xs))"

definition contains_group :: "instruction list \<Rightarrow> bool" where
  "contains_group bundle = (filter is_group bundle \<noteq> [])"

section \<open>Nodes and the object store\<close>

text \<open>
  A Node is a JavaScript object; nodes refer to each other. The store maps a reference to
  the object it denotes. A JavaScript \<open>Set\<close> iterates in insertion order and holds every
  element once: it is a list without duplicates, with \<open>set_add\<close> for \<open>Set.add\<close>.
  The priority is a number or undefined; the numbers that assignDagPriority writes are
  positive integers, so \<open>int\<close> stands for number.
\<close>

type_synonym ref = nat

datatype node_instr = Start | Instr instruction

record node =
  succs :: "ref list"
  preds :: "ref list"
  instr :: node_instr
  priority :: "int option"

type_synonym store = "ref \<Rightarrow> node"

definition set_add :: "'a \<Rightarrow> 'a list \<Rightarrow> 'a list" where
  "set_add x xs = (if x \<in> set xs then xs else xs @ [x])"

section \<open>PQueue, subset and nodeCompare\<close>

text \<open>
  The loop of \<open>PQueue.next\<close>: \<open>best\<close> starts undefined, takes the first item, and is
  replaced by a later item whenever \<open>compare(best, item)\<close> holds.
\<close>

definition PQueue_best :: "('a \<Rightarrow> 'a \<Rightarrow> bool) \<Rightarrow> 'a list \<Rightarrow> 'a option" where
  "PQueue_best compare t =
     fold (\<lambda>item best. case best of None \<Rightarrow> Some item
                                   | Some b \<Rightarrow> if compare b item then Some item else Some b)
          t None"

text \<open>\<open>next\<close> returns the best item and the queue without it.\<close>

definition PQueue_next :: "('a \<Rightarrow> 'a \<Rightarrow> bool) \<Rightarrow> 'a list \<Rightarrow> 'a option \<times> 'a list" where
  "PQueue_next compare t =
     (case PQueue_best compare t of None \<Rightarrow> (None, t)
                                  | Some b \<Rightarrow> (Some b, removeAll b t))"

fun subset_of :: "'a list \<Rightarrow> 'a list \<Rightarrow> bool" where
  "subset_of [] s2 = True"
| "subset_of (e # s1) s2 = (if e \<in> set s2 then subset_of s1 s2 else False)"

text \<open>
  \<open>t1.priority && t2.priority\<close> is truthy when both priorities are defined and not zero.
\<close>

definition nodeCompare :: "node \<Rightarrow> node \<Rightarrow> bool" where
  "nodeCompare t1 t2 =
     (case (priority t1, priority t2) of
        (Some p1, Some p2) \<Rightarrow> if p1 \<noteq> 0 \<and> p2 \<noteq> 0 then p1 < p2 else True
      | (Some p1, None) \<Rightarrow> True
      | (None, _) \<Rightarrow> False)"

section \<open>dataflow\<close>

definition new_node :: "node_instr \<Rightarrow> node" where
  "new_node i = \<lparr>succs = [], preds = [], instr = i, priority = None\<rparr>"

text \<open>\<open>parent.succs.add(currNode); currNode.preds.add(parent)\<close>, in this order.\<close>

definition add_succ :: "store \<Rightarrow> ref \<Rightarrow> ref \<Rightarrow> store" where
  "add_succ h p c = h(p := (h p)\<lparr>succs := set_add c (succs (h p))\<rparr>)"

definition add_pred :: "store \<Rightarrow> ref \<Rightarrow> ref \<Rightarrow> store" where
  "add_pred h c p = h(c := (h c)\<lparr>preds := set_add p (preds (h c))\<rparr>)"

definition add_edge :: "store \<Rightarrow> ref \<Rightarrow> ref \<Rightarrow> store" where
  "add_edge h p c = add_pred (add_succ h p c) c p"

text \<open>
  The state of the scan: the store, the maps \<open>written\<close> and \<open>read\<close>, and the next unused
  reference. The start node is the object at reference 0; cells not yet allocated hold a blank
  node.
\<close>

record df_state =
  heap :: store
  written :: "ident \<rightharpoonup> ref"
  read :: "ident \<rightharpoonup> ref list"
  fresh :: ref

definition startNode :: ref where
  "startNode = 0"

definition addRead :: "(ident \<rightharpoonup> ref list) \<Rightarrow> ident \<Rightarrow> ref \<Rightarrow> (ident \<rightharpoonup> ref list)" where
  "addRead rd x n = (case rd x of None \<Rightarrow> rd(x \<mapsto> [n]) | Some val \<Rightarrow> rd(x \<mapsto> set_add n val))"

text \<open>Edges from the earlier readers of the destination to the current node.\<close>

definition link_reads :: "store \<Rightarrow> ref list option \<Rightarrow> ref \<Rightarrow> store" where
  "link_reads h parent cur =
     (case parent of None \<Rightarrow> h | Some ns \<Rightarrow> fold (\<lambda>n h'. add_edge h' n cur) ns h)"

text \<open>The loop over the arguments: an edge from the recorded writer, then addRead.\<close>

definition link_arg ::
  "(ident \<rightharpoonup> ref) \<Rightarrow> ref \<Rightarrow> ident \<Rightarrow> store \<times> (ident \<rightharpoonup> ref list) \<Rightarrow> store \<times> (ident \<rightharpoonup> ref list)"
where
  "link_arg w cur arg hr =
     ((case w arg of None \<Rightarrow> fst hr | Some parent \<Rightarrow> add_edge (fst hr) parent cur),
      addRead (snd hr) arg cur)"

definition dataflow_instr :: "df_state \<Rightarrow> instruction \<Rightarrow> df_state" where
  "dataflow_instr s i =
     (let cur = fresh s;
          h0 = (heap s)(cur := new_node (Instr i));
          h1 = add_succ h0 startNode cur;
          h2 = (case dest_of i of None \<Rightarrow> h1 | Some d \<Rightarrow> link_reads h1 (read s d) cur);
          w2 = (case dest_of i of None \<Rightarrow> written s | Some d \<Rightarrow> (written s)(d \<mapsto> cur));
          hr = (case args_of i of None \<Rightarrow> (h2, read s)
                                | Some as \<Rightarrow> fold (link_arg w2 cur) as (h2, read s))
      in \<lparr>heap = fst hr, written = w2, read = snd hr, fresh = Suc cur\<rparr>)"

definition df_init :: df_state where
  "df_init = \<lparr>heap = (\<lambda>_. new_node Start), written = Map.empty, read = Map.empty,
              fresh = Suc startNode\<rparr>"

definition dataflow_scan :: "instruction list \<Rightarrow> df_state" where
  "dataflow_scan trace = foldl dataflow_instr df_init trace"

text \<open>dataflow returns the start node: a reference into the store it has built.\<close>

definition dataflow :: "instruction list \<Rightarrow> store \<times> ref" where
  "dataflow trace = (heap (dataflow_scan trace), startNode)"

section \<open>listSchedule\<close>

type_synonym valid_pred = "instruction list \<Rightarrow> instruction \<Rightarrow> bool"

record sched_state =
  queue :: "ref list"
  scheduled :: "ref list"
  toUpdate :: "ref list"
  currentGroup :: "instruction list"
  schedule :: "instruction group list"

text \<open>The seeding loop: the successors of the dag that have no predecessor.\<close>

definition seed_queue :: "store \<Rightarrow> ref \<Rightarrow> ref list" where
  "seed_queue h dag =
     fold (\<lambda>n q. if preds (h n) = [] then set_add n q else q) (succs (h dag)) []"

definition sched_init :: "store \<Rightarrow> ref \<Rightarrow> sched_state" where
  "sched_init h dag =
     \<lparr>queue = seed_queue h dag, scheduled = [], toUpdate = [], currentGroup = [], schedule = []\<rparr>"

text \<open>\<open>for (let child of node.succs) if (subset(child.preds, scheduled)) toUpdate.add(child)\<close>\<close>

definition ready_children :: "store \<Rightarrow> ref list \<Rightarrow> ref list \<Rightarrow> ref list \<Rightarrow> ref list" where
  "ready_children h sch children tu =
     fold (\<lambda>child tu'. if subset_of (preds (h child)) sch then set_add child tu' else tu')
          children tu"

text \<open>
  The else branch of the loop: the current bundle is materialized (toGroup may throw), the
  nodes to update go back to the queue, and the loop ends when the queue is still empty.
\<close>

definition finalize ::
  "sched_state \<Rightarrow> ref list \<Rightarrow> sched_state + (error + instruction group list)"
where
  "finalize s q =
     (case toGroup (currentGroup s) of
        Inl e \<Rightarrow> Inr (Inl e)
      | Inr g \<Rightarrow>
          (let sch = schedule s @ [g]; q' = fold set_add (toUpdate s) q
           in if q' = [] then Inr (Inr sch)
              else Inl (s\<lparr>queue := q', toUpdate := [], currentGroup := [], schedule := sch\<rparr>)))"

text \<open>
  One iteration of \<open>while (true)\<close>: \<open>Inl\<close> is the state of the next iteration, \<open>Inr\<close> the
  way the loop is left (a thrown error, or the schedule at \<open>break\<close>).
\<close>

definition sched_body ::
  "store \<Rightarrow> valid_pred \<Rightarrow> sched_state \<Rightarrow> sched_state + (error + instruction group list)"
where
  "sched_body h valid s =
     (case PQueue_next (\<lambda>a b. nodeCompare (h a) (h b)) (queue s) of
        (None, q) \<Rightarrow> finalize s q
      | (Some n, q) \<Rightarrow>
          (case instr (h n) of
             Start \<Rightarrow> finalize s q
           | Instr i \<Rightarrow>
               if valid (currentGroup s) i
               then (let sch = set_add n (scheduled s)
                     in Inl (s\<lparr>queue := q, currentGroup := currentGroup s @ [i], scheduled := sch,
                               toUpdate := ready_children h sch (succs (h n)) (toUpdate s)\<rparr>))
               else Inl (s\<lparr>queue := q, toUpdate := set_add n (toUpdate s)\<rparr>)))"

partial_function (option) sched_while ::
  "store \<Rightarrow> valid_pred \<Rightarrow> sched_state \<Rightarrow> (error + instruction group list) option"
where
  "sched_while h valid s =
     (case sched_body h valid s of Inl s' \<Rightarrow> sched_while h valid s' | Inr r \<Rightarrow> Some r)"

declare sched_while.simps [code]

text \<open>
  listSchedule: \<open>None\<close> when the loop never ends, \<open>Some (Inl e)\<close> when toGroup throws,
  \<open>Some (Inr schedule)\<close> when the schedule is returned.
\<close>

definition listSchedule ::
  "store \<times> ref \<Rightarrow> valid_pred \<Rightarrow> (error + instruction group list) option" where
  "listSchedule dag valid = sched_while (fst dag) valid (sched_init (fst dag) (snd dag))"

section \<open>assignDagPriority\<close>

text \<open>
  The recursion of assignDagPriority follows the successors and has no visited set: on a
  cyclic graph it never returns. The first argument bounds the depth of the recursion;
  \<open>None\<close> means that the bound was reached.
\<close>

fun assignDagPriority :: "nat \<Rightarrow> store \<Rightarrow> ref \<Rightarrow> (store \<times> int) option"
  and assignDagPriority_loop :: "nat \<Rightarrow> store \<Rightarrow> ref list \<Rightarrow> int \<Rightarrow> (store \<times> int) option"
where
  "assignDagPriority 0 h dag = None"
| "assignDagPriority (Suc fuel) h dag =
     (case assignDagPriority_loop fuel h (succs (h dag)) 0 of
        None \<Rightarrow> None
      | Some (h', maxDepth) \<Rightarrow>
          Some (h'(dag := (h' dag)\<lparr>priority := Some (maxDepth + 1)\<rparr>), maxDepth + 1))"
| "assignDagPriority_loop fuel h [] maxDepth = Some (h, maxDepth)"
| "assignDagPriority_loop fuel h (n # ns) maxDepth =
     (case assignDagPriority fuel h n of
        None \<Rightarrow> None
      | Some (h', d) \<Rightarrow> assignDagPriority_loop fuel h' ns (max maxDepth d))"


section \<open>Vocabulary for the graph\<close>

text \<open>The successor edges of a store, and the chains of successors that end in a leaf.\<close>

definition edges :: "store \<Rightarrow> (ref \<times> ref) set" where
  "edges h = {(a, b). b \<in> set (succs (h a))}"

fun is_chain :: "store \<Rightarrow> ref list \<Rightarrow> bool" where
  "is_chain h [] = False"
| "is_chain h [n] = (succs (h n) = [])"
| "is_chain h (n # m # p) = (m \<in> set (succs (h n)) \<and> is_chain h (m # p))"

text \<open>
  The height of a node as a relation: one more than the greatest height among its successors,
  computed as the loop of assignDagPriority does. It exists exactly where the recursion ends.
\<close>

inductive height :: "store \<Rightarrow> ref \<Rightarrow> int \<Rightarrow> bool" for h where
  heightI: "list_all2 (height h) (succs (h n)) ds \<Longrightarrow> height h n (fold (\<lambda>d m. max m d) ds 0 + 1)"


text \<open>Stores that agree on the successors, and a store with priorities overwritten on a set.\<close>

definition same_succs :: "store \<Rightarrow> store \<Rightarrow> bool" where
  "same_succs h h1 = (\<forall>m. succs (h1 m) = succs (h m))"

definition prio_upd :: "store \<Rightarrow> ref set \<Rightarrow> (ref \<Rightarrow> int) \<Rightarrow> store" where
  "prio_upd h X H = (\<lambda>m. if m \<in> X then (h m)\<lparr>priority := Some (H m)\<rparr> else h m)"

section \<open>Vocabulary for the dependence graph\<close>

text \<open>The identifiers an instruction lists as arguments (none when it has no \<open>args\<close>).\<close>

definition arg_set :: "instruction \<Rightarrow> ident set" where
  "arg_set i = (case args_of i of None \<Rightarrow> {} | Some as \<Rightarrow> set as)"

text \<open>
  \<open>nearest_writer trace b x a\<close>: position \<open>a\<close> is the last position strictly before
  \<open>b\<close> whose instruction has destination \<open>x\<close>.
\<close>

definition nearest_writer :: "instruction list \<Rightarrow> nat \<Rightarrow> ident \<Rightarrow> nat \<Rightarrow> bool" where
  "nearest_writer trace b x a =
     (a < b \<and> dest_of (trace ! a) = Some x \<and> (\<forall>j. a < j \<and> j < b \<longrightarrow> dest_of (trace ! j) \<noteq> Some x))"

text \<open>The successors and predecessors of a node, as sets.\<close>

definition succ_set :: "store \<Rightarrow> ref \<Rightarrow> ref set" where "succ_set h a = set (succs (h a))"

definition pred_set :: "store \<Rightarrow> ref \<Rightarrow> ref set" where "pred_set h b = set (preds (h b))"

text \<open>The nodes recorded in the map \<open>read\<close> for an identifier.\<close>

definition readers_set :: "(ident \<rightharpoonup> ref list) \<Rightarrow> ident \<Rightarrow> ref set" where
  "readers_set rd x = (case rd x of None \<Rightarrow> {} | Some v \<Rightarrow> set v)"

text \<open>
  What the scan computes, in terms of the trace. The node of the instruction at position
  \<open>k\<close> is the reference \<open>Suc k\<close>. Its predecessors are the earlier instructions
  that list its destination among their arguments, and for each of its arguments the node
  found in \<open>written\<close> at the time of the lookup, which is the last writer at a position
  up to and including \<open>k\<close> itself.
\<close>

definition dep_preds :: "instruction list \<Rightarrow> ref \<Rightarrow> ref set" where
  "dep_preds trace b =
     {Suc a | a. \<exists>k. b = Suc k \<and> k < length trace \<and>
         ((a < k \<and> (\<exists>x. dest_of (trace ! k) = Some x \<and> x \<in> arg_set (trace ! a)))
          \<or> (\<exists>x\<in>arg_set (trace ! k). nearest_writer trace (Suc k) x a))}"

text \<open>The invariant of the scan after the prefix \<open>pre\<close> of the trace.\<close>

definition scan_inv :: "instruction list \<Rightarrow> df_state \<Rightarrow> bool" where
  "scan_inv pre s =
     (fresh s = Suc (length pre)
      \<and> (\<forall>j<length pre. instr (heap s (Suc j)) = Instr (pre ! j))
      \<and> succ_set (heap s) startNode = {Suc j | j. j < length pre}
      \<and> (\<forall>a b. a \<noteq> startNode \<longrightarrow> (b \<in> succ_set (heap s) a) = (a \<in> pred_set (heap s) b))
      \<and> (\<forall>b. pred_set (heap s) b = dep_preds pre b)
      \<and> (\<forall>x w. (written s x = Some w) = (\<exists>a. w = Suc a \<and> nearest_writer pre (length pre) x a))
      \<and> (\<forall>x. readers_set (read s) x = {Suc a | a. a < length pre \<and> x \<in> arg_set (pre ! a)}))"

text \<open>
  The facts about a graph of \<open>N\<close> instruction nodes that the scheduler relies on: the
  start node lists every node, successors and predecessors mirror each other, predecessors
  are instruction nodes created no later than the node, and no instruction node is the start
  marker.
\<close>

definition dag_ok :: "store \<Rightarrow> nat \<Rightarrow> bool" where
  "dag_ok h N =
     (succ_set h startNode = {Suc j | j. j < N}
      \<and> (\<forall>a b. a \<noteq> startNode \<longrightarrow> (b \<in> succ_set h a) = (a \<in> pred_set h b))
      \<and> (\<forall>a b. a \<in> pred_set h b \<longrightarrow> 1 \<le> a \<and> a \<le> b \<and> b \<le> N)
      \<and> (\<forall>n. 1 \<le> n \<and> n \<le> N \<longrightarrow> instr (h n) \<noteq> Start))"

text \<open>Stores that differ at most in the priorities.\<close>

definition same_graph :: "store \<Rightarrow> store \<Rightarrow> bool" where
  "same_graph g h =
     (\<forall>n. succs (h n) = succs (g n) \<and> preds (h n) = preds (g n) \<and> instr (h n) = instr (g n))"

text \<open>An instruction that lists its own destination among its arguments.\<close>

definition reads_own_dest :: "instruction \<Rightarrow> bool" where
  "reads_own_dest i = (case dest_of i of None \<Rightarrow> False | Some d \<Rightarrow> d \<in> arg_set i)"

section \<open>Invariants of the scheduling loop\<close>

text \<open>
  The sets of the loop (queue, toUpdate, scheduled) and the nodes of the bundles already
  closed: they are disjoint as stated, hold instruction nodes only, a queued node has all its
  predecessors in closed bundles, a node to update or scheduled has them scheduled, and a node
  whose predecessors are all scheduled is scheduled itself or waits in the queue or in
  toUpdate.
\<close>

definition sets_inv :: "store \<Rightarrow> nat \<Rightarrow> ref set \<Rightarrow> ref set \<Rightarrow> ref set \<Rightarrow> ref set \<Rightarrow> bool" where
  "sets_inv h N Q U S D =
     (D \<subseteq> S \<and> Q \<inter> S = {} \<and> U \<inter> S = {} \<and> Q \<inter> U = {}
      \<and> Q \<union> U \<union> S \<subseteq> {n. 1 \<le> n \<and> n \<le> N}
      \<and> (\<forall>n\<in>Q. pred_set h n \<subseteq> D)
      \<and> (\<forall>n\<in>U. pred_set h n \<subseteq> S)
      \<and> (\<forall>n\<in>S. pred_set h n \<subseteq> S)
      \<and> (\<forall>n. 1 \<le> n \<and> n \<le> N \<and> n \<notin> S \<and> pred_set h n \<subseteq> S \<longrightarrow> n \<in> Q \<union> U))"

text \<open>
  The state of the loop against the bundles of nodes behind it: \<open>bs\<close> are the bundles
  already materialized into the schedule, \<open>cur\<close> are the nodes of the current bundle.
\<close>

definition sched_inv :: "store \<Rightarrow> nat \<Rightarrow> ref list list \<Rightarrow> ref list \<Rightarrow> sched_state \<Rightarrow> bool" where
  "sched_inv h N bs cur s =
     (map (\<lambda>n. instr (h n)) cur = map Instr (currentGroup s)
      \<and> list_all2 (\<lambda>b g. \<exists>is. map (\<lambda>n. instr (h n)) b = map Instr is \<and> toGroup is = Inr g)
            bs (schedule s)
      \<and> set (scheduled s) = set (concat bs) \<union> set cur
      \<and> distinct (concat bs @ cur)
      \<and> (\<forall>j<length bs. \<forall>n\<in>set (bs ! j). pred_set h n \<subseteq> set (concat (take j bs)))
      \<and> (\<forall>n\<in>set cur. pred_set h n \<subseteq> set (concat bs))
      \<and> sets_inv h N (set (queue s)) (set (toUpdate s)) (set (scheduled s)) (set (concat bs)))"

text \<open>The measure that decreases with every iteration, lexicographically.\<close>

definition sched_measure :: "nat \<Rightarrow> sched_state \<Rightarrow> nat \<times> nat \<times> nat" where
  "sched_measure N s =
     (N - card (set (scheduled s)),
      if currentGroup s = [] \<and> queue s \<noteq> [] then 0 else 1,
      length (queue s))"

text \<open>The loop has ended with the schedule \<open>sched\<close>, made from the bundles \<open>bs\<close>.\<close>

definition sched_done :: "store \<Rightarrow> nat \<Rightarrow> ref list list \<Rightarrow> instruction group list \<Rightarrow> bool" where
  "sched_done h N bs sched =
     (\<exists>s. sched_inv h N bs [] s \<and> queue s = [] \<and> toUpdate s = [] \<and> schedule s = sched)"

section \<open>Lemmas about toGroup\<close>

lemma toGroup_loop_group:
  "contains_group bundle \<Longrightarrow> toGroup_loop bundle cs ins fl = Inl CannotNestGroups"
proof (induction "bundle" cs ins fl rule: toGroup_loop.induct)
qed (auto simp: contains_group_def)

lemma toGroup_loop_no_group:
  "\<not> contains_group bundle \<Longrightarrow>
   toGroup_loop bundle cs ins fl =
     Inr (Group (cs @ map tested_ident (filter is_br_guard bundle))
                (ins @ filter has_dest bundle)
                (last_fail_target fl (filter is_trace bundle)))"
proof (induction "bundle" cs ins fl rule: toGroup_loop.induct)
  case (3 eff lbl rest cs ins fl)
  then show ?case
    by (cases "eop eff") (auto simp: contains_group_def last_fail_target_def has_dest_def)
qed (auto simp: contains_group_def last_fail_target_def has_dest_def)


section \<open>Rules for the loop of listSchedule\<close>

text \<open>An invariant kept by every iteration holds of whatever the loop returns.\<close>

lemma sched_while_partial:
  assumes run: "sched_while h valid s = Some r"
    and init: "I s"
    and step: "\<And>s s'. I s \<Longrightarrow> sched_body h valid s = Inl s' \<Longrightarrow> I s'"
    and exit: "\<And>s r. I s \<Longrightarrow> sched_body h valid s = Inr r \<Longrightarrow> P r"
  shows "P r"
proof -
  have "h' = h \<longrightarrow> valid' = valid \<longrightarrow> I s \<longrightarrow> P r"
    if "sched_while h' valid' s = Some r" for h' valid' s r
  proof (rule sched_while.raw_induct
      [where P = "\<lambda>h' valid' s r. h' = h \<longrightarrow> valid' = valid \<longrightarrow> I s \<longrightarrow> P r", OF _ that])
    fix loop h' valid' s r
    assume IH: "\<And>h' valid' s r. loop h' valid' s = Some r \<Longrightarrow>
                 h' = h \<longrightarrow> valid' = valid \<longrightarrow> I s \<longrightarrow> P r"
      and body: "(case sched_body h' valid' s of Inl s' \<Rightarrow> loop h' valid' s' | Inr r \<Rightarrow> Some r) = Some r"
    show "h' = h \<longrightarrow> valid' = valid \<longrightarrow> I s \<longrightarrow> P r"
    proof (intro impI)
      assume eq: "h' = h" "valid' = valid" and inv: "I s"
      show "P r"
      proof (cases "sched_body h valid s")
        case (Inl s')
        with body eq have "loop h valid s' = Some r" by simp
        moreover have "I s'" using step [OF inv Inl] .
        ultimately show ?thesis using IH by blast
      next
        case (Inr r')
        with body eq have "r' = r" by simp
        with exit [OF inv Inr] show ?thesis by simp
      qed
    qed
  qed
  with run init show ?thesis by blast
qed

text \<open>When every iteration descends in a well-founded relation, the loop returns.\<close>

lemma sched_while_total:
  assumes wfR: "wf R"
    and init: "I s"
    and step: "\<And>s s'. I s \<Longrightarrow> sched_body h valid s = Inl s' \<Longrightarrow> I s' \<and> (s', s) \<in> R"
  shows "\<exists>r. sched_while h valid s = Some r"
  using wfR init
proof (induction s rule: wf_induct_rule)
  case (less s)
  show ?case
  proof (cases "sched_body h valid s")
    case (Inl s')
    with less.prems step have "I s'" "(s', s) \<in> R" by blast+
    with less.IH obtain r where "sched_while h valid s' = Some r" by blast
    with Inl show ?thesis by (subst sched_while.simps) simp
  next
    case (Inr r)
    then show ?thesis by (subst sched_while.simps) simp
  qed
qed

lemma finalize_result_nonempty:
  "finalize s q = Inr (Inr sch) \<Longrightarrow> sch \<noteq> []"
  by (auto simp: finalize_def Let_def split: sum.splits if_splits)

lemma sched_body_result_nonempty:
  "sched_body h valid s = Inr (Inr sch) \<Longrightarrow> sch \<noteq> []"
  by (auto simp: sched_body_def Let_def split: prod.splits option.splits node_instr.splits if_splits
      dest: finalize_result_nonempty)

section \<open>Properties of toGroup\<close>

text \<open>
  C7 (as amended). On a bundle without a group, toGroup returns the group whose instrs are
  the instructions with a destination (constants and value operations) of the bundle in
  encounter order, so no effect instruction is among them; whose conds are the first argument
  of every trace instruction wrapping a \<open>br\<close>, in order (\<open>None\<close>, the undefined of
  JavaScript, when that branch has no argument); and whose failLabel is the failLabel of the
  last trace instruction of the bundle, whatever effect it wraps, and the empty string when
  the bundle has no trace instruction.
\<close>

theorem toGroup_on_plain_bundle:
  "\<not> contains_group bdl \<Longrightarrow>
   toGroup bdl =
     Inr (Group (map tested_ident (filter is_br_guard bdl))
                (filter has_dest bdl)
                (last_fail_target [] (filter is_trace bdl)))"
  unfolding toGroup_def by (simp add: toGroup_loop_no_group)

theorem toGroup_on_plain_bundle_witness:
  "\<not> contains_group
        [Constant (NumV 1) ''x'' TInt, Trace (EffectOp Br [''c'', ''l'', ''r'']) ''exit'',
         ValueOperation OpAdd [''x'', ''x''] ''y'' TInt, Effect (EffectOp Print [''y''])]
   \<and> toGroup
        [Constant (NumV 1) ''x'' TInt, Trace (EffectOp Br [''c'', ''l'', ''r'']) ''exit'',
         ValueOperation OpAdd [''x'', ''x''] ''y'' TInt, Effect (EffectOp Print [''y''])]
     = Inr (Group [Some ''c'']
                  [Constant (NumV 1) ''x'' TInt, ValueOperation OpAdd [''x'', ''x''] ''y'' TInt]
                  ''exit'')"
proof -
  have ng: "\<not> contains_group
        [Constant (NumV 1) ''x'' TInt, Trace (EffectOp Br [''c'', ''l'', ''r'']) ''exit'',
         ValueOperation OpAdd [''x'', ''x''] ''y'' TInt, Effect (EffectOp Print [''y''])]"
    by (simp add: contains_group_def)
  show ?thesis
    using ng toGroup_on_plain_bundle [OF ng]
    by (simp add: has_dest_def last_fail_target_def)
qed

text \<open>
  C7 as stated fails: the fail label is overwritten by every trace instruction, not only by
  conditional-branch guards. In the bundle below the only conditional-branch guard fails to
  \<open>L1\<close>, yet the group's failLabel is \<open>L2\<close>, taken from the trace instruction that wraps
  a \<open>jmp\<close>.
\<close>

theorem toGroup_failLabel_counterexample:
  "toGroup [Trace (EffectOp Br [''c'']) ''L1'', Trace (EffectOp Jmp []) ''L2'']
     = Inr (Group [Some ''c''] [] ''L2'')
   \<and> last_fail_target []
        (filter is_br_guard [Trace (EffectOp Br [''c'']) ''L1'', Trace (EffectOp Jmp []) ''L2''])
     = ''L1''"
  by (simp add: toGroup_def last_fail_target_def)

text \<open>
  C8. toGroup raises exactly when the bundle contains an instruction that is a group; on a
  bundle without one it returns a group.
\<close>

theorem toGroup_raises_iff_group:
  "((\<exists>e. toGroup bdl = Inl e) = contains_group bdl)
   \<and> ((\<exists>g. toGroup bdl = Inr g) = (\<not> contains_group bdl))"
proof (cases "contains_group bdl")
  case True
  then show ?thesis
    unfolding toGroup_def by (simp add: toGroup_loop_group)
next
  case False
  then show ?thesis
    unfolding toGroup_def by (simp add: toGroup_loop_no_group)
qed

theorem toGroup_raises_iff_group_witness:
  "contains_group [Constant (NumV 1) ''x'' TInt, GroupI (Group [] [] [])]
   \<and> toGroup [Constant (NumV 1) ''x'' TInt, GroupI (Group [] [] [])] = Inl CannotNestGroups
   \<and> \<not> contains_group [Constant (NumV 1) ''x'' TInt]
   \<and> toGroup [Constant (NumV 1) ''x'' TInt] = Inr (Group [] [Constant (NumV 1) ''x'' TInt] [])"
  using toGroup_raises_iff_group [of "[Constant (NumV 1) ''x'' TInt, GroupI (Group [] [] [])]"]
        toGroup_raises_iff_group [of "[Constant (NumV 1) ''x'' TInt]"]
  by (simp add: contains_group_def toGroup_def has_dest_def)


section \<open>The comparator and the queue\<close>

text \<open>
  When every node of the worklist has an assigned priority other than zero, the node that
  \<open>next\<close> removes has the greatest priority.
\<close>

lemma PQueue_fold_greatest:
  assumes "\<And>x. x \<in> insert a (set t) \<Longrightarrow> \<exists>p. priority (h x) = Some p \<and> p \<noteq> 0"
  shows "\<exists>b. fold (\<lambda>item best. case best of None \<Rightarrow> Some item
                 | Some b \<Rightarrow> if nodeCompare (h b) (h item) then Some item else Some b) t (Some a)
               = Some b
           \<and> b \<in> insert a (set t)
           \<and> (\<forall>x\<in>insert a (set t). the (priority (h x)) \<le> the (priority (h b)))"
  using assms
proof (induction t arbitrary: a)
  case Nil
  then show ?case by simp
next
  case (Cons x t)
  let ?a' = "if nodeCompare (h a) (h x) then x else a"
  from Cons.prems [of a] Cons.prems [of x] obtain pa px where
    p: "priority (h a) = Some pa" "pa \<noteq> 0" "priority (h x) = Some px" "px \<noteq> 0" by auto
  then have cmp: "nodeCompare (h a) (h x) = (pa < px)" by (simp add: nodeCompare_def)
  have a'mem: "?a' \<in> insert a (set (x # t))" by simp
  have ge: "the (priority (h a)) \<le> the (priority (h ?a'))" "the (priority (h x)) \<le> the (priority (h ?a'))"
    using p cmp by auto
  have "\<And>y. y \<in> insert ?a' (set t) \<Longrightarrow> \<exists>p. priority (h y) = Some p \<and> p \<noteq> 0"
    using Cons.prems by auto
  from Cons.IH [OF this] obtain b where b:
    "fold (\<lambda>item best. case best of None \<Rightarrow> Some item
                 | Some b \<Rightarrow> if nodeCompare (h b) (h item) then Some item else Some b) t (Some ?a')
       = Some b"
    "b \<in> insert ?a' (set t)"
    "\<forall>y\<in>insert ?a' (set t). the (priority (h y)) \<le> the (priority (h b))"
    by blast
  from b(3) have top: "the (priority (h ?a')) \<le> the (priority (h b))" by blast
  show ?case
  proof (intro exI [of _ b] conjI ballI)
    show "fold (\<lambda>item best. case best of None \<Rightarrow> Some item
                 | Some b \<Rightarrow> if nodeCompare (h b) (h item) then Some item else Some b) (x # t) (Some a)
            = Some b"
      using b(1) by (cases "nodeCompare (h a) (h x)") simp_all
    show "b \<in> insert a (set (x # t))" using b(2) by (auto split: if_splits)
    fix y assume "y \<in> insert a (set (x # t))"
    then consider "y = a" | "y = x" | "y \<in> set t" by auto
    then show "the (priority (h y)) \<le> the (priority (h b))"
    proof cases
      case 1
      with ge(1) top show ?thesis by simp
    next
      case 2
      with ge(2) top show ?thesis by simp
    next
      case 3
      with b(3) show ?thesis by blast
    qed
  qed
qed

lemma PQueue_next_picks_greatest:
  assumes ne: "t \<noteq> []"
    and pr: "\<And>x. x \<in> set t \<Longrightarrow> \<exists>p. priority (h x) = Some p \<and> p \<noteq> 0"
  shows "\<exists>b. PQueue_next (\<lambda>a b. nodeCompare (h a) (h b)) t = (Some b, removeAll b t)
           \<and> b \<in> set t
           \<and> (\<forall>x\<in>set t. the (priority (h x)) \<le> the (priority (h b)))"
proof -
  from ne obtain a u where t: "t = a # u" by (cases t) auto
  have "\<And>x. x \<in> insert a (set u) \<Longrightarrow> \<exists>p. priority (h x) = Some p \<and> p \<noteq> 0"
    using pr t by simp
  from PQueue_fold_greatest [of a u h, OF this] obtain b where
    "PQueue_best (\<lambda>a b. nodeCompare (h a) (h b)) t = Some b"
    "b \<in> set t" "\<forall>x\<in>set t. the (priority (h x)) \<le> the (priority (h b))"
    unfolding PQueue_best_def t by auto
  then show ?thesis by (auto simp: PQueue_next_def)
qed

text \<open>
  A node without priority wins against a node that has one, whichever comes first in the
  worklist: \<open>next\<close> replaces \<open>best\<close> when \<open>compare(best, item)\<close> holds, and nodeCompare
  answers \<open>t1.priority !== undefined\<close> when a priority is missing.
\<close>

lemma PQueue_next_undefined_wins:
  assumes "priority (h a) = Some p" and "priority (h b) = None" and "a \<noteq> b"
  shows "PQueue_next (\<lambda>x y. nodeCompare (h x) (h y)) [a, b] = (Some b, [a])"
    and "PQueue_next (\<lambda>x y. nodeCompare (h x) (h y)) [b, a] = (Some b, [a])"
  using assms by (simp_all add: PQueue_next_def PQueue_best_def nodeCompare_def)

text \<open>
  C6 fails on the code. Take the graph of the trace \<open>x = const 1; y = const 2\<close> and run
  assignDagPriority from the node of the first instruction only: node 1 has priority 1, node 2
  has none, both are ready, and the node that \<open>next\<close> removes from the worklist of
  listSchedule is node 2, the one without priority.
\<close>

theorem PQueue_next_prefers_undefined_priority:
  "map_option
     (\<lambda>(h, d). (priority (h 1), priority (h 2), seed_queue h startNode,
                PQueue_next (\<lambda>a b. nodeCompare (h a) (h b)) (seed_queue h startNode)))
     (assignDagPriority 2
        (fst (dataflow [Constant (NumV 1) ''x'' TInt, Constant (NumV 2) ''y'' TInt])) 1)
   = Some (Some 1, None, [1, 2], (Some 2, [1]))"
  by code_simp

section \<open>The graph built by dataflow\<close>

text \<open>
  C2 fails on the code. dataflow registers the current node as the writer of its destination
  before it looks up the writers of its arguments, so an instruction that reads its own
  destination finds itself: for the one-instruction trace \<open>x = add x x\<close> the node (reference
  1) is its own successor and its own predecessor.
\<close>

theorem dataflow_self_loop:
  "1 \<in> set (succs (fst (dataflow [ValueOperation OpAdd [''x'', ''x''] ''x'' TInt]) 1))
   \<and> 1 \<in> set (preds (fst (dataflow [ValueOperation OpAdd [''x'', ''x''] ''x'' TInt]) 1))"
  by code_simp

text \<open>
  C4 fails on the code, by the same defect. In the trace \<open>x = const 1; x = add x x\<close> the
  nearest writer of \<open>x\<close> strictly before the second instruction is the first (reference 1),
  but the only predecessor of the second node (reference 2) is that node itself, and the first
  node has no successor.
\<close>

theorem dataflow_misses_previous_writer:
  "preds (fst (dataflow [Constant (NumV 1) ''x'' TInt,
                         ValueOperation OpAdd [''x'', ''x''] ''x'' TInt]) 2) = [2]
   \<and> succs (fst (dataflow [Constant (NumV 1) ''x'' TInt,
                           ValueOperation OpAdd [''x'', ''x''] ''x'' TInt]) 1) = []"
  by code_simp

text \<open>
  C5 as stated fails: the set of readers of an identifier is never cleared. In the trace
  \<open>print x; x = const 1; x = const 2\<close> the reader (reference 1) precedes the write by the
  second instruction, and still becomes a predecessor of the third node (reference 3).
\<close>

theorem dataflow_stale_reader_counterexample:
  "preds (fst (dataflow [Effect (EffectOp Print [''x'']), Constant (NumV 1) ''x'' TInt,
                         Constant (NumV 2) ''x'' TInt]) 2) = [1]
   \<and> preds (fst (dataflow [Effect (EffectOp Print [''x'']), Constant (NumV 1) ''x'' TInt,
                           Constant (NumV 2) ''x'' TInt]) 3) = [1]"
  by code_simp

section \<open>Properties of listSchedule\<close>

text \<open>
  C1 as stated fails: a trace may hold a group, and then toGroup throws when the bundle is
  materialized, so no schedule is returned.
\<close>

theorem listSchedule_group_counterexample:
  "listSchedule (dataflow [GroupI (Group [] [] [])]) (\<lambda>g c. True) = Some (Inl CannotNestGroups)"
  by code_simp

text \<open>
  An instruction that reads its own destination is never ready, since its node is among its
  own predecessors: the schedule of \<open>x = add x x\<close> is one empty group.
\<close>

lemma listSchedule_drops_self_reader:
  "listSchedule (dataflow [ValueOperation OpAdd [''x'', ''x''] ''x'' TInt]) (\<lambda>g c. True)
     = Some (Inr [Group [] [] []])"
  by code_simp

text \<open>
  C10. For the empty trace, and for any start node without successors, listSchedule returns
  the schedule of exactly one group, which is empty: no conditions, no instructions, the
  empty string as fail label. Whenever listSchedule returns a schedule, it is not empty.
\<close>

theorem listSchedule_never_empty:
  "listSchedule (dataflow []) valid = Some (Inr [Group [] [] []])
   \<and> (succs (h dag) = [] \<longrightarrow> listSchedule (h, dag) valid = Some (Inr [Group [] [] []]))
   \<and> (listSchedule d valid = Some (Inr sched) \<longrightarrow> sched \<noteq> [])"
proof (intro conjI impI)
  show leaf: "listSchedule (h, dag) valid = Some (Inr [Group [] [] []])"
    if "succs (h dag) = []" for h dag
    unfolding listSchedule_def
    by (subst sched_while.simps)
       (simp add: that sched_init_def seed_queue_def sched_body_def PQueue_next_def
          PQueue_best_def finalize_def toGroup_def)
  have "succs (heap (dataflow_scan []) startNode) = []"
    by (simp add: dataflow_scan_def df_init_def new_node_def)
  then show "listSchedule (dataflow []) valid = Some (Inr [Group [] [] []])"
    unfolding dataflow_def by (rule leaf)
next
  assume run: "listSchedule d valid = Some (Inr sched)"
  have "case (Inr sched :: error + instruction group list) of Inl e \<Rightarrow> True
          | Inr sch \<Rightarrow> sch \<noteq> []"
  proof (rule sched_while_partial [where I = "\<lambda>_. True" and r = "Inr sched"
        and P = "\<lambda>r. case r of Inl e \<Rightarrow> True | Inr sch \<Rightarrow> sch \<noteq> []"])
    show "sched_while (fst d) valid (sched_init (fst d) (snd d)) = Some (Inr sched)"
      using run by (simp add: listSchedule_def)
  next
    fix s r
    assume "sched_body (fst d) valid s = Inr r"
    then show "case r of Inl e \<Rightarrow> True | Inr sch \<Rightarrow> sch \<noteq> []"
      by (cases r) (auto dest: sched_body_result_nonempty)
  qed simp_all
  then show "sched \<noteq> []" by simp
qed

theorem listSchedule_never_empty_witness:
  "succs (fst (dataflow []) (snd (dataflow []))) = []
   \<and> listSchedule (dataflow []) (\<lambda>g c. True) = Some (Inr [Group [] [] []])
   \<and> listSchedule (dataflow [Constant (NumV 1) ''x'' TInt]) (\<lambda>g c. True)
       = Some (Inr [Group [] [Constant (NumV 1) ''x'' TInt] []])
   \<and> [Group [] [Constant (NumV 1) ''x'' TInt] []] \<noteq> ([] :: instruction group list)"
proof -
  have leaf: "succs (fst (dataflow []) (snd (dataflow []))) = []"
    by code_simp
  have run: "listSchedule (dataflow [Constant (NumV 1) ''x'' TInt]) (\<lambda>g c. True)
       = Some (Inr [Group [] [Constant (NumV 1) ''x'' TInt] []])"
    by code_simp
  note inst = listSchedule_never_empty
    [of "\<lambda>g c. True" "fst (dataflow [])" "snd (dataflow [])"
        "dataflow [Constant (NumV 1) ''x'' TInt]" "[Group [] [Constant (NumV 1) ''x'' TInt] []]"]
  from inst leaf run show ?thesis by simp
qed

section \<open>Properties of assignDagPriority\<close>

lemma fuel_mono:
  shows "\<forall>r f'. assignDagPriority f h n = Some r \<longrightarrow> f \<le> f' \<longrightarrow> assignDagPriority f' h n = Some r"
    and "\<forall>r f'. assignDagPriority_loop f h ns m = Some r \<longrightarrow> f \<le> f' \<longrightarrow> assignDagPriority_loop f' h ns m = Some r"
proof (induction f h n and f h ns m rule: assignDagPriority_assignDagPriority_loop.induct)
  case (1 h dag)
  then show ?case by simp
next
  case (2 fuel h dag)
  show ?case
  proof (intro impI allI)
    fix r f' assume run: "assignDagPriority (Suc fuel) h dag = Some r" and le: "Suc fuel \<le> f'"
    then obtain g where f': "f' = Suc g" and g: "fuel \<le> g" by (cases f') auto
    from run obtain h' md where l: "assignDagPriority_loop fuel h (succs (h dag)) 0 = Some (h', md)"
      by (auto split: option.splits)
    with 2 g have "assignDagPriority_loop g h (succs (h dag)) 0 = Some (h', md)" by blast
    with run l show "assignDagPriority f' h dag = Some r" by (simp add: f')
  qed
next
  case (3 fuel h maxDepth)
  then show ?case by simp
next
  case (4 fuel h n ns maxDepth)
  show ?case
  proof (intro impI allI)
    fix r f' assume run: "assignDagPriority_loop fuel h (n # ns) maxDepth = Some r" and le: "fuel \<le> f'"
    from run obtain h' d where a: "assignDagPriority fuel h n = Some (h', d)"
      and b: "assignDagPriority_loop fuel h' ns (max maxDepth d) = Some r"
      by (auto split: option.splits)
    from 4(1) a le have a': "assignDagPriority f' h n = Some (h', d)" by blast
    from 4(2) [OF a refl] b le have "assignDagPriority_loop f' h' ns (max maxDepth d) = Some r" by blast
    with a' show "assignDagPriority_loop f' h (n # ns) maxDepth = Some r" by simp
  qed
qed


lemma list_all2_exists:
  "(\<And>x. x \<in> set xs \<Longrightarrow> \<exists>y. P x y) \<Longrightarrow> \<exists>ys. list_all2 P xs ys"
proof (induction xs)
  case Nil
  then show ?case by simp
next
  case (Cons x xs)
  then obtain y ys where "P x y" "list_all2 P xs ys" by (meson list.set_intros)
  then have "list_all2 P (x # xs) (y # ys)" by simp
  then show ?case by blast
qed

lemma height_total:
  assumes "wf ((edges h)\<inverse>)"
  shows "\<exists>d. height h n d"
  using assms
proof (induction n rule: wf_induct_rule)
  case (less n)
  have "\<exists>d. height h s d" if "s \<in> set (succs (h n))" for s
    using less [of s] that by (simp add: edges_def)
  then obtain ds where "list_all2 (height h) (succs (h n)) ds"
    using list_all2_exists [of "succs (h n)" "height h"] by blast
  then show ?case by (blast intro: heightI)
qed

lemma list_all2_unique:
  "list_all2 (\<lambda>x y. Q x y \<and> (\<forall>y'. R x y' \<longrightarrow> y = y')) xs ys \<Longrightarrow> list_all2 R xs ys' \<Longrightarrow> ys = ys'"
proof (induction xs ys arbitrary: ys' rule: list_all2_induct)
  case Nil
  then show ?case by simp
next
  case (Cons x xs y ys)
  then show ?case by (auto simp: list_all2_Cons1)
qed

lemma height_det: "height h n d \<Longrightarrow> \<forall>d'. height h n d' \<longrightarrow> d = d'"
proof (induction rule: height.induct)
  case (heightI n ds)
  show ?case
  proof (intro allI impI)
    fix d' assume "height h n d'"
    then obtain ds' where ds': "list_all2 (height h) (succs (h n)) ds'"
      and d': "d' = fold (\<lambda>d m. max m d) ds' 0 + 1"
      by (auto elim: height.cases)
    from list_all2_unique [OF heightI ds'] d'
    show "fold (\<lambda>d m. max m d) ds 0 + 1 = d'" by simp
  qed
qed

lemma fold_max_ge: "(a :: int) \<le> fold (\<lambda>d m. max m d) ds a"
proof (induction ds arbitrary: a)
  case Nil
  then show ?case by simp
next
  case (Cons d ds)
  have "a \<le> max a d" by simp
  also have "\<dots> \<le> fold (\<lambda>d m. max m d) ds (max a d)" by (rule Cons.IH)
  finally show ?case by simp
qed

lemma height_pos: "height h n d \<Longrightarrow> 1 \<le> d"
  by (erule height.cases) (use fold_max_ge [of 0] in auto)

lemma reach_unfold:
  "(edges h)\<^sup>* `` {n} = insert n (\<Union>s\<in>set (succs (h n)). (edges h)\<^sup>* `` {s})"
proof -
  have "(n, m) \<in> (edges h)\<^sup>* \<longleftrightarrow> m = n \<or> (\<exists>s\<in>set (succs (h n)). (s, m) \<in> (edges h)\<^sup>*)" for m
  proof
    assume "(n, m) \<in> (edges h)\<^sup>*"
    then show "m = n \<or> (\<exists>s\<in>set (succs (h n)). (s, m) \<in> (edges h)\<^sup>*)"
      by (cases rule: converse_rtranclE) (auto simp: edges_def)
  next
    assume "m = n \<or> (\<exists>s\<in>set (succs (h n)). (s, m) \<in> (edges h)\<^sup>*)"
    then show "(n, m) \<in> (edges h)\<^sup>*"
      by (auto simp: edges_def intro: converse_rtrancl_into_rtrancl)
  qed
  then show ?thesis by auto
qed

lemma prio_upd_empty: "prio_upd h {} H = h"
  by (simp add: prio_upd_def)

lemma prio_upd_twice: "prio_upd (prio_upd h X H) Y H = prio_upd h (X \<union> Y) H"
  by (rule ext) (simp add: prio_upd_def)

lemma prio_upd_succs: "succs (prio_upd h X H m) = succs (h m)"
  by (simp add: prio_upd_def)

lemma prio_upd_insert:
  "(prio_upd h X H)(n := (prio_upd h X H n)\<lparr>priority := Some (H n)\<rparr>) = prio_upd h (insert n X) H"
  by (rule ext) (simp add: prio_upd_def)

lemma loop_run:
  assumes "list_all2 (\<lambda>s d. Q s d \<and> (\<exists>f0. \<forall>f\<ge>f0. \<forall>h1. same_succs h h1 \<longrightarrow>
              assignDagPriority f h1 s = Some (prio_upd h1 ((edges h)\<^sup>* `` {s}) H, d))) ss ds"
  shows "\<exists>f0. \<forall>f\<ge>f0. \<forall>h1 a. same_succs h h1 \<longrightarrow>
           assignDagPriority_loop f h1 ss a
             = Some (prio_upd h1 (\<Union>s\<in>set ss. (edges h)\<^sup>* `` {s}) H, fold (\<lambda>d m. max m d) ds a)"
  using assms
proof (induction ss ds rule: list_all2_induct)
  case Nil
  then show ?case by (simp add: prio_upd_empty)
next
  case (Cons s ss d ds)
  from Cons.hyps obtain f1 where f1: "\<And>f h1. f1 \<le> f \<Longrightarrow> same_succs h h1 \<Longrightarrow>
      assignDagPriority f h1 s = Some (prio_upd h1 ((edges h)\<^sup>* `` {s}) H, d)" by blast
  from Cons.IH obtain f2 where f2: "\<And>f h1 a. f2 \<le> f \<Longrightarrow> same_succs h h1 \<Longrightarrow>
      assignDagPriority_loop f h1 ss a
        = Some (prio_upd h1 (\<Union>s\<in>set ss. (edges h)\<^sup>* `` {s}) H, fold (\<lambda>d m. max m d) ds a)" by blast
  show ?case
  proof (intro exI [of _ "max f1 f2"] allI impI)
    fix f h1 a
    assume le: "max f1 f2 \<le> f" and same: "same_succs h h1"
    let ?h2 = "prio_upd h1 ((edges h)\<^sup>* `` {s}) H"
    have 1: "assignDagPriority f h1 s = Some (?h2, d)" using f1 le same by simp
    have same2: "same_succs h ?h2" using same by (simp add: prio_upd_succs same_succs_def)
    have 2: "assignDagPriority_loop f ?h2 ss (max a d)
       = Some (prio_upd ?h2 (\<Union>s\<in>set ss. (edges h)\<^sup>* `` {s}) H, fold (\<lambda>d m. max m d) ds (max a d))"
      using f2 le same2 by simp
    show "assignDagPriority_loop f h1 (s # ss) a
       = Some (prio_upd h1 (\<Union>s\<in>set (s # ss). (edges h)\<^sup>* `` {s}) H, fold (\<lambda>d m. max m d) (d # ds) a)"
      using 1 2 by (simp add: prio_upd_twice)
  qed
qed

lemma assign_run:
  assumes H: "\<And>m. height h m (H m)"
  shows "height h n d \<Longrightarrow> \<exists>f0. \<forall>f\<ge>f0. \<forall>h1. same_succs h h1 \<longrightarrow>
           assignDagPriority f h1 n = Some (prio_upd h1 ((edges h)\<^sup>* `` {n}) H, d)"
proof (induction rule: height.induct)
  case (heightI n ds)
  from loop_run [OF heightI] obtain f0 where f0: "\<And>f h1 a. f0 \<le> f \<Longrightarrow> same_succs h h1 \<Longrightarrow>
      assignDagPriority_loop f h1 (succs (h n)) a
        = Some (prio_upd h1 (\<Union>s\<in>set (succs (h n)). (edges h)\<^sup>* `` {s}) H, fold (\<lambda>d m. max m d) ds a)" by blast
  have "list_all2 (height h) (succs (h n)) ds"
    using heightI by (rule list_all2_mono) simp
  then have "height h n (fold (\<lambda>d m. max m d) ds 0 + 1)" by (rule height.heightI)
  with height_det [OF H [of n]] have Hn: "H n = fold (\<lambda>d m. max m d) ds 0 + 1" by blast
  show ?case
  proof (intro exI [of _ "Suc f0"] allI impI)
    fix f h1
    assume le: "Suc f0 \<le> f" and same: "same_succs h h1"
    then obtain g where f: "f = Suc g" and g: "f0 \<le> g" by (cases f) auto
    show "assignDagPriority f h1 n
       = Some (prio_upd h1 ((edges h)\<^sup>* `` {n}) H, fold (\<lambda>d m. max m d) ds 0 + 1)"
      using f0 [OF g same, of 0] same
      by (simp add: same_succs_def f prio_upd_insert [of h1 _ H n, unfolded Hn] reach_unfold [of h n])
  qed
qed


lemma fold_max_mem_le: "d \<in> set ds \<Longrightarrow> (d :: int) \<le> fold (\<lambda>d m. max m d) ds a"
proof (induction ds arbitrary: a)
  case Nil
  then show ?case by simp
next
  case (Cons x ds)
  show ?case
  proof (cases "d = x")
    case True
    have "x \<le> max a x" by simp
    also have "\<dots> \<le> fold (\<lambda>d m. max m d) ds (max a x)" by (rule fold_max_ge)
    finally show ?thesis using True by simp
  next
    case False
    with Cons show ?thesis by simp
  qed
qed

lemma fold_max_in: "fold (\<lambda>d m. max m d) ds (a :: int) \<in> insert a (set ds)"
proof (induction ds arbitrary: a)
  case Nil
  then show ?case by simp
next
  case (Cons x ds)
  from Cons.IH [of "max a x"] show ?case by (auto simp: max_def split: if_splits)
qed

lemma fold_max_Max:
  assumes "ds \<noteq> []" and "\<And>d. d \<in> set ds \<Longrightarrow> (1 :: int) \<le> d"
  shows "fold (\<lambda>d m. max m d) ds 0 = Max (set ds)"
proof (rule sym, rule Max_eqI)
  show "finite (set ds)" by simp
  show "y \<le> fold (\<lambda>d m. max m d) ds 0" if "y \<in> set ds" for y
    using that by (rule fold_max_mem_le)
  from assms obtain d where d: "d \<in> set ds" "1 \<le> d" by (cases ds) auto
  with fold_max_mem_le [of d ds 0] have "fold (\<lambda>d m. max m d) ds 0 \<noteq> 0" by simp
  with fold_max_in [of ds 0] show "fold (\<lambda>d m. max m d) ds 0 \<in> set ds" by simp
qed

lemma is_chain_same_succs: "same_succs h h' \<Longrightarrow> is_chain h' p = is_chain h p"
  by (induction h p rule: is_chain.induct) (simp_all add: same_succs_def)

lemma height_chain:
  "height h n d \<Longrightarrow>
     (\<exists>p. is_chain h (n # p) \<and> int (length (n # p)) = d)
     \<and> (\<forall>p. is_chain h (n # p) \<longrightarrow> int (length (n # p)) \<le> d)"
proof (induction rule: height.induct)
  case (heightI n ds)
  let ?F = "fold (\<lambda>d m. max m d) ds 0"
  have len: "length (succs (h n)) = length ds"
    using heightI by (rule list_all2_lengthD)
  have nth: "height h (succs (h n) ! i) (ds ! i)
      \<and> (\<exists>p. is_chain h (succs (h n) ! i # p) \<and> int (length (succs (h n) ! i # p)) = ds ! i)
      \<and> (\<forall>p. is_chain h (succs (h n) ! i # p) \<longrightarrow> int (length (succs (h n) ! i # p)) \<le> ds ! i)"
    if "i < length ds" for i
    using heightI that len by (simp add: list_all2_conv_all_nth)
  have upper: "int (length (n # p)) \<le> ?F + 1" if c: "is_chain h (n # p)" for p
  proof (cases p)
    case Nil
    with fold_max_ge [of 0 ds] show ?thesis by simp
  next
    case (Cons m q)
    with c have m: "m \<in> set (succs (h n))" and cq: "is_chain h (m # q)" by simp_all
    from m obtain i where i: "i < length ds" "succs (h n) ! i = m"
      using len by (auto simp: in_set_conv_nth)
    with nth [of i] cq have "int (length (m # q)) \<le> ds ! i" by auto
    also have "ds ! i \<le> ?F" using i by (intro fold_max_mem_le) simp
    finally show ?thesis using Cons by simp
  qed
  have exists: "\<exists>p. is_chain h (n # p) \<and> int (length (n # p)) = ?F + 1"
  proof (cases "ds = []")
    case True
    with len have "is_chain h [n]" by simp
    with True show ?thesis by auto
  next
    case False
    have pos: "1 \<le> d" if "d \<in> set ds" for d
    proof -
      from that obtain i where "i < length ds" "ds ! i = d" by (auto simp: in_set_conv_nth)
      with nth [of i] show ?thesis by (auto dest: height_pos)
    qed
    from False pos have "?F = Max (set ds)" by (rule fold_max_Max)
    moreover have "Max (set ds) \<in> set ds" using False by (intro Max_in) simp_all
    ultimately obtain i where i: "i < length ds" "ds ! i = ?F"
      by (auto simp: in_set_conv_nth)
    with nth [of i] obtain p where p: "is_chain h (succs (h n) ! i # p)"
      "int (length (succs (h n) ! i # p)) = ?F" by auto
    from i len have "succs (h n) ! i \<in> set (succs (h n))" by simp
    with p have "is_chain h (n # succs (h n) ! i # p)" by simp
    moreover from p have "int (length (n # succs (h n) ! i # p)) = ?F + 1" by simp
    ultimately show ?thesis by blast
  qed
  from upper exists show ?case by blast
qed

lemma height_local:
  assumes H: "\<And>m. height h m (H m)"
  shows "H n = fold (\<lambda>d m. max m d) (map H (succs (h n))) 0 + 1"
proof -
  have "list_all2 (height h) (succs (h n)) (map H (succs (h n)))"
    using H by (simp add: list_all2_conv_all_nth)
  then have "height h n (fold (\<lambda>d m. max m d) (map H (succs (h n))) 0 + 1)"
    by (rule heightI)
  with height_det [OF H [of n]] show ?thesis by blast
qed

lemma acyclic_increasing:
  assumes "\<And>a b. (a, b) \<in> E \<Longrightarrow> (a :: nat) < b"
  shows "acyclic E"
proof -
  have "E \<subseteq> less_than" using assms by auto
  moreover have "acyclic less_than" by (simp add: wf_acyclic)
  ultimately show ?thesis by (rule acyclic_subset [rotated])
qed

text \<open>
  C9. On a store whose successor edges are finitely many and acyclic, assignDagPriority run
  from a root returns, for every recursion bound from some bound on, and in the store it
  returns every node reachable from the root keeps its successors and has as priority the
  length, counted in nodes, of the longest chain of successors from that node down to a
  leaf: priority 1 for a node without successors, and otherwise 1 plus the greatest priority
  among its successors.
\<close>

theorem assignDagPriority_longest_chain:
  assumes fin: "finite (edges h)" and acyc: "acyclic (edges h)"
  shows "\<exists>fuel h'.
     (\<forall>f\<ge>fuel. \<exists>d. assignDagPriority f h root = Some (h', d) \<and> priority (h' root) = Some d)
     \<and> (\<forall>n. (root, n) \<in> (edges h)\<^sup>* \<longrightarrow>
           succs (h' n) = succs (h n)
         \<and> (\<exists>d. priority (h' n) = Some d
               \<and> (\<exists>p. is_chain h' (n # p) \<and> int (length (n # p)) = d)
               \<and> (\<forall>p. is_chain h' (n # p) \<longrightarrow> int (length (n # p)) \<le> d))
         \<and> (succs (h' n) = [] \<longrightarrow> priority (h' n) = Some 1)
         \<and> (succs (h' n) \<noteq> [] \<longrightarrow>
               (\<exists>ps. map (\<lambda>s. priority (h' s)) (succs (h' n)) = map Some ps
                    \<and> priority (h' n) = Some (1 + Max (set ps)))))"
proof -
  from fin acyc have "wf ((edges h)\<inverse>)" by (rule finite_acyclic_wf_converse)
  then have "\<forall>m. \<exists>d. height h m d" by (blast intro: height_total)
  then obtain H where H: "\<And>m. height h m (H m)" by metis
  let ?R = "(edges h)\<^sup>* `` {root}"
  let ?h' = "prio_upd h ?R H"
  from assign_run [OF H H [of root]] obtain f0 where
    f0: "\<And>f. f0 \<le> f \<Longrightarrow> assignDagPriority f h root = Some (?h', H root)"
    by (auto simp: same_succs_def)
  have same: "same_succs h ?h'" by (simp add: same_succs_def prio_upd_succs)
  have prio: "priority (?h' n) = Some (H n)" if "n \<in> ?R" for n
    using that by (simp add: prio_upd_def)
  have "\<forall>f\<ge>f0. \<exists>d. assignDagPriority f h root = Some (?h', d) \<and> priority (?h' root) = Some d"
    using f0 prio [of root] by simp
  moreover have "succs (?h' n) = succs (h n)
         \<and> (\<exists>d. priority (?h' n) = Some d
               \<and> (\<exists>p. is_chain ?h' (n # p) \<and> int (length (n # p)) = d)
               \<and> (\<forall>p. is_chain ?h' (n # p) \<longrightarrow> int (length (n # p)) \<le> d))
         \<and> (succs (?h' n) = [] \<longrightarrow> priority (?h' n) = Some 1)
         \<and> (succs (?h' n) \<noteq> [] \<longrightarrow>
               (\<exists>ps. map (\<lambda>s. priority (?h' s)) (succs (?h' n)) = map Some ps
                    \<and> priority (?h' n) = Some (1 + Max (set ps))))"
    if r: "(root, n) \<in> (edges h)\<^sup>*" for n
  proof (intro conjI impI)
    show sn: "succs (?h' n) = succs (h n)" by (simp add: prio_upd_succs)
    from r have nR: "n \<in> ?R" by simp
    from height_chain [OF H [of n]] prio [OF nR]
    show "\<exists>d. priority (?h' n) = Some d
               \<and> (\<exists>p. is_chain ?h' (n # p) \<and> int (length (n # p)) = d)
               \<and> (\<forall>p. is_chain ?h' (n # p) \<longrightarrow> int (length (n # p)) \<le> d)"
      by (simp add: is_chain_same_succs [OF same])
    show "priority (?h' n) = Some 1" if "succs (?h' n) = []"
      using that sn prio [OF nR] height_local [OF H, of n] by simp
    show "\<exists>ps. map (\<lambda>s. priority (?h' s)) (succs (?h' n)) = map Some ps
                    \<and> priority (?h' n) = Some (1 + Max (set ps))" if ne: "succs (?h' n) \<noteq> []"
    proof (intro exI [of _ "map H (succs (h n))"] conjI)
      have "s \<in> ?R" if "s \<in> set (succs (h n))" for s
      proof -
        from that have "(n, s) \<in> edges h" by (simp add: edges_def)
        with r show ?thesis by auto
      qed
      then show "map (\<lambda>s. priority (?h' s)) (succs (?h' n)) = map Some (map H (succs (h n)))"
        by (simp add: sn prio)
      have "fold (\<lambda>d m. max m d) (map H (succs (h n))) 0 = Max (set (map H (succs (h n))))"
      proof (rule fold_max_Max)
        show "map H (succs (h n)) \<noteq> []" using ne sn by simp
        show "1 \<le> d" if "d \<in> set (map H (succs (h n)))" for d
          using that H by (auto dest: height_pos)
      qed
      with height_local [OF H, of n] prio [OF nR]
      show "priority (?h' n) = Some (1 + Max (set (map H (succs (h n)))))" by simp
    qed
  qed
  ultimately show ?thesis by blast
qed

lemmas df_defs = dataflow_def dataflow_scan_def df_init_def dataflow_instr_def startNode_def
  new_node_def add_succ_def set_add_def link_reads_def link_arg_def addRead_def add_edge_def
  add_pred_def

theorem assignDagPriority_longest_chain_witness:
  "finite (edges (fst (dataflow [Constant (NumV 5) ''x'' TInt, ValueOperation OpId [''x''] ''y'' TInt])))
   \<and> acyclic (edges (fst (dataflow [Constant (NumV 5) ''x'' TInt, ValueOperation OpId [''x''] ''y'' TInt])))
   \<and> (\<exists>fuel h'.
     (\<forall>f\<ge>fuel. \<exists>d. assignDagPriority f
          (fst (dataflow [Constant (NumV 5) ''x'' TInt, ValueOperation OpId [''x''] ''y'' TInt])) 0
            = Some (h', d) \<and> priority (h' 0) = Some d)
     \<and> (\<forall>n. (0, n) \<in> (edges (fst (dataflow [Constant (NumV 5) ''x'' TInt,
                                   ValueOperation OpId [''x''] ''y'' TInt])))\<^sup>* \<longrightarrow>
           succs (h' n) = succs (fst (dataflow [Constant (NumV 5) ''x'' TInt,
                                   ValueOperation OpId [''x''] ''y'' TInt]) n)
         \<and> (\<exists>d. priority (h' n) = Some d
               \<and> (\<exists>p. is_chain h' (n # p) \<and> int (length (n # p)) = d)
               \<and> (\<forall>p. is_chain h' (n # p) \<longrightarrow> int (length (n # p)) \<le> d))
         \<and> (succs (h' n) = [] \<longrightarrow> priority (h' n) = Some 1)
         \<and> (succs (h' n) \<noteq> [] \<longrightarrow>
               (\<exists>ps. map (\<lambda>s. priority (h' s)) (succs (h' n)) = map Some ps
                    \<and> priority (h' n) = Some (1 + Max (set ps))))))"
proof -
  let ?h = "fst (dataflow [Constant (NumV 5) ''x'' TInt, ValueOperation OpId [''x''] ''y'' TInt])"
  have e: "edges ?h = {(0, 1), (0, 2), (1, 2)}"
    by (auto simp: edges_def df_defs split: if_splits)
  have fin: "finite (edges ?h)" by (simp add: e)
  have acyc: "acyclic (edges ?h)" by (rule acyclic_increasing) (auto simp: e)
  from assignDagPriority_longest_chain [OF fin acyc, of 0] fin acyc
  show ?thesis by blast
qed

section \<open>The scan of dataflow, characterised\<close>

lemma set_set_add: "set (set_add x xs) = insert x (set xs)"
  by (auto simp: set_add_def)

lemma add_edge_succ_set: "succ_set (add_edge h p c) a = (if a = p then insert c (succ_set h a) else succ_set h a)"
  by (simp add: succ_set_def add_edge_def add_pred_def add_succ_def set_set_add)

lemma add_edge_pred_set: "pred_set (add_edge h p c) b = (if b = c then insert p (pred_set h b) else pred_set h b)"
  by (simp add: pred_set_def add_edge_def add_pred_def add_succ_def set_set_add)

lemma add_edge_instr: "instr (add_edge h p c n) = instr (h n)"
  by (simp add: add_edge_def add_pred_def add_succ_def)

lemma add_edge_priority: "priority (add_edge h p c n) = priority (h n)"
  by (simp add: add_edge_def add_pred_def add_succ_def)

lemma fold_add_edge_succ_set:
  "succ_set (fold (\<lambda>n h'. add_edge h' n c) ns h) a = (if a \<in> set ns then insert c (succ_set h a) else succ_set h a)"
  by (induction ns arbitrary: h) (auto simp: add_edge_succ_set)

lemma fold_add_edge_pred_set:
  "pred_set (fold (\<lambda>n h'. add_edge h' n c) ns h) b = (if b = c then set ns \<union> pred_set h b else pred_set h b)"
  by (induction ns arbitrary: h) (auto simp: add_edge_pred_set)

lemma fold_add_edge_instr: "instr (fold (\<lambda>n h'. add_edge h' n c) ns h m) = instr (h m)"
  by (induction ns arbitrary: h) (auto simp: add_edge_instr)

lemma link_reads_succ_set:
  "succ_set (link_reads h (rd x) c) a = (if a \<in> readers_set rd x then insert c (succ_set h a) else succ_set h a)"
  by (simp add: link_reads_def readers_set_def fold_add_edge_succ_set split: option.splits)

lemma link_reads_pred_set:
  "pred_set (link_reads h (rd x) c) b = (if b = c then readers_set rd x \<union> pred_set h b else pred_set h b)"
  by (simp add: link_reads_def readers_set_def fold_add_edge_pred_set split: option.splits)

lemma link_reads_instr: "instr (link_reads h r c m) = instr (h m)"
  by (simp add: link_reads_def fold_add_edge_instr split: option.splits)

lemma addRead_readers: "readers_set (addRead rd x n) y = (if y = x then insert n (readers_set rd y) else readers_set rd y)"
  by (auto simp: readers_set_def addRead_def set_set_add split: option.splits)

lemma fold_link_arg_succ_set:
  "succ_set (fst (fold (link_arg w c) as hr)) a =
     (if \<exists>x\<in>set as. w x = Some a then insert c (succ_set (fst hr) a) else succ_set (fst hr) a)"
  by (induction as arbitrary: hr) (auto simp: link_arg_def add_edge_succ_set split: option.splits)

lemma fold_link_arg_pred_set:
  "pred_set (fst (fold (link_arg w c) as hr)) b =
     (if b = c then {p. \<exists>x\<in>set as. w x = Some p} \<union> pred_set (fst hr) b else pred_set (fst hr) b)"
  by (induction as arbitrary: hr) (auto simp: link_arg_def add_edge_pred_set split: option.splits)

lemma fold_link_arg_instr: "instr (fst (fold (link_arg w c) as hr) m) = instr (fst hr m)"
  by (induction as arbitrary: hr) (auto simp: link_arg_def add_edge_instr split: option.splits)

lemma fold_link_arg_readers:
  "readers_set (snd (fold (link_arg w c) as hr)) y =
     (if y \<in> set as then insert c (readers_set (snd hr) y) else readers_set (snd hr) y)"
  by (induction as arbitrary: hr) (auto simp: link_arg_def addRead_readers)

lemma add_succ_succ_set: "succ_set (add_succ h p c) a = (if a = p then insert c (succ_set h a) else succ_set h a)"
  by (simp add: succ_set_def add_succ_def set_set_add)

lemma add_succ_pred_set: "pred_set (add_succ h p c) b = pred_set h b"
  by (simp add: pred_set_def add_succ_def)

lemma add_succ_instr: "instr (add_succ h p c m) = instr (h m)"
  by (simp add: add_succ_def)

lemma new_succ_set: "succ_set (h(c := new_node i)) a = (if a = c then {} else succ_set h a)"
  by (simp add: succ_set_def new_node_def)

lemma new_pred_set: "pred_set (h(c := new_node i)) a = (if a = c then {} else pred_set h a)"
  by (simp add: pred_set_def new_node_def)

lemma step_fresh: "fresh (dataflow_instr s i) = Suc (fresh s)"
  by (simp add: dataflow_instr_def Let_def)

lemma step_written:
  "written (dataflow_instr s i) =
     (case dest_of i of None \<Rightarrow> written s | Some d \<Rightarrow> (written s)(d \<mapsto> fresh s))"
  by (simp add: dataflow_instr_def Let_def)

lemma step_readers:
  "readers_set (read (dataflow_instr s i)) y =
     (if y \<in> arg_set i then insert (fresh s) (readers_set (read s) y) else readers_set (read s) y)"
  by (simp add: dataflow_instr_def Let_def arg_set_def fold_link_arg_readers split: option.splits)

lemma step_instr:
  "instr (heap (dataflow_instr s i) m) = (if m = fresh s then Instr i else instr (heap s m))"
  by (simp add: dataflow_instr_def Let_def fold_link_arg_instr link_reads_instr add_succ_instr
      new_node_def split: option.splits)

lemma step_pred_set:
  "pred_set (heap (dataflow_instr s i)) b =
     (if b = fresh s
      then (case dest_of i of None \<Rightarrow> {} | Some d \<Rightarrow> readers_set (read s) d)
           \<union> {p. \<exists>x\<in>arg_set i. written (dataflow_instr s i) x = Some p}
      else pred_set (heap s) b)"
  by (simp add: step_written)
     (auto simp: dataflow_instr_def Let_def arg_set_def fold_link_arg_pred_set link_reads_pred_set
       add_succ_pred_set new_pred_set split: option.splits)

lemma step_succ_set:
  "succ_set (heap (dataflow_instr s i)) a =
     (if a = fresh s then {} else succ_set (heap s) a)
     \<union> (if a = startNode \<or> (\<exists>d. dest_of i = Some d \<and> a \<in> readers_set (read s) d)
            \<or> (\<exists>x\<in>arg_set i. written (dataflow_instr s i) x = Some a)
         then {fresh s} else {})"
  by (simp add: step_written)
     (auto simp: dataflow_instr_def Let_def arg_set_def fold_link_arg_succ_set link_reads_succ_set
       add_succ_succ_set new_succ_set split: option.splits)

lemma nearest_writer_prefix:
  "b \<le> length pre \<Longrightarrow> nearest_writer (pre @ post) b x a = nearest_writer pre b x a"
  by (auto simp: nearest_writer_def nth_append)

lemma nearest_writer_snoc:
  "nearest_writer (pre @ [i]) (Suc (length pre)) x a =
     (if dest_of i = Some x then a = length pre else nearest_writer pre (length pre) x a)"
proof (cases "dest_of i = Some x")
  case True
  have "nearest_writer (pre @ [i]) (Suc (length pre)) x a \<longleftrightarrow> a = length pre"
  proof
    assume nw: "nearest_writer (pre @ [i]) (Suc (length pre)) x a"
    show "a = length pre"
    proof (rule ccontr)
      assume "a \<noteq> length pre"
      with nw have "a < length pre" by (simp add: nearest_writer_def)
      then have "dest_of ((pre @ [i]) ! length pre) \<noteq> Some x"
        using nw unfolding nearest_writer_def by blast
      with True show False by simp
    qed
  next
    assume "a = length pre"
    with True show "nearest_writer (pre @ [i]) (Suc (length pre)) x a"
      by (auto simp: nearest_writer_def)
  qed
  with True show ?thesis by simp
next
  case False
  have "nearest_writer (pre @ [i]) (Suc (length pre)) x a \<longleftrightarrow> nearest_writer pre (length pre) x a"
  proof
    assume nw: "nearest_writer (pre @ [i]) (Suc (length pre)) x a"
    then have "a \<noteq> length pre" using False by (auto simp: nearest_writer_def)
    with nw have a: "a < length pre" by (simp add: nearest_writer_def)
    with nw show "nearest_writer pre (length pre) x a"
      by (auto simp: nearest_writer_def nth_append split: if_splits)
  next
    assume nw: "nearest_writer pre (length pre) x a"
    show "nearest_writer (pre @ [i]) (Suc (length pre)) x a"
      unfolding nearest_writer_def
    proof (intro conjI allI impI)
      from nw show "a < Suc (length pre)" by (simp add: nearest_writer_def)
      from nw show "dest_of ((pre @ [i]) ! a) = Some x" by (simp add: nearest_writer_def nth_append)
      fix j assume "a < j \<and> j < Suc (length pre)"
      then show "dest_of ((pre @ [i]) ! j) \<noteq> Some x"
        using nw False by (cases "j = length pre") (auto simp: nearest_writer_def nth_append)
    qed
  qed
  with False show ?thesis by simp
qed

lemma dep_preds_snoc_old:
  assumes "b \<noteq> Suc (length pre)"
  shows "dep_preds (pre @ [i]) b = dep_preds pre b"
proof -
  have "(\<exists>k. b = Suc k \<and> k < length (pre @ [i]) \<and>
         ((a < k \<and> (\<exists>x. dest_of ((pre @ [i]) ! k) = Some x \<and> x \<in> arg_set ((pre @ [i]) ! a)))
          \<or> (\<exists>x\<in>arg_set ((pre @ [i]) ! k). nearest_writer (pre @ [i]) (Suc k) x a)))
      \<longleftrightarrow> (\<exists>k. b = Suc k \<and> k < length pre \<and>
         ((a < k \<and> (\<exists>x. dest_of (pre ! k) = Some x \<and> x \<in> arg_set (pre ! a)))
          \<or> (\<exists>x\<in>arg_set (pre ! k). nearest_writer pre (Suc k) x a)))" for a
  proof -
    have *: "k < length pre \<Longrightarrow>
        ((a < k \<and> (\<exists>x. dest_of ((pre @ [i]) ! k) = Some x \<and> x \<in> arg_set ((pre @ [i]) ! a)))
          \<or> (\<exists>x\<in>arg_set ((pre @ [i]) ! k). nearest_writer (pre @ [i]) (Suc k) x a))
        = ((a < k \<and> (\<exists>x. dest_of (pre ! k) = Some x \<and> x \<in> arg_set (pre ! a)))
          \<or> (\<exists>x\<in>arg_set (pre ! k). nearest_writer pre (Suc k) x a))" for k
      by (auto simp: nth_append nearest_writer_prefix)
    show ?thesis
    proof
      assume "\<exists>k. b = Suc k \<and> k < length (pre @ [i]) \<and>
         ((a < k \<and> (\<exists>x. dest_of ((pre @ [i]) ! k) = Some x \<and> x \<in> arg_set ((pre @ [i]) ! a)))
          \<or> (\<exists>x\<in>arg_set ((pre @ [i]) ! k). nearest_writer (pre @ [i]) (Suc k) x a))"
      then obtain k where k: "b = Suc k" "k < length (pre @ [i])"
        "((a < k \<and> (\<exists>x. dest_of ((pre @ [i]) ! k) = Some x \<and> x \<in> arg_set ((pre @ [i]) ! a)))
          \<or> (\<exists>x\<in>arg_set ((pre @ [i]) ! k). nearest_writer (pre @ [i]) (Suc k) x a))" by blast
      with assms have kl: "k < length pre" by simp
      with k(3) * [OF kl] k(1) show "\<exists>k. b = Suc k \<and> k < length pre \<and>
         ((a < k \<and> (\<exists>x. dest_of (pre ! k) = Some x \<and> x \<in> arg_set (pre ! a)))
          \<or> (\<exists>x\<in>arg_set (pre ! k). nearest_writer pre (Suc k) x a))" by blast
    next
      assume "\<exists>k. b = Suc k \<and> k < length pre \<and>
         ((a < k \<and> (\<exists>x. dest_of (pre ! k) = Some x \<and> x \<in> arg_set (pre ! a)))
          \<or> (\<exists>x\<in>arg_set (pre ! k). nearest_writer pre (Suc k) x a))"
      then obtain k where k: "b = Suc k" "k < length pre"
        "((a < k \<and> (\<exists>x. dest_of (pre ! k) = Some x \<and> x \<in> arg_set (pre ! a)))
          \<or> (\<exists>x\<in>arg_set (pre ! k). nearest_writer pre (Suc k) x a))" by blast
      with * [OF k(2)] show "\<exists>k. b = Suc k \<and> k < length (pre @ [i]) \<and>
         ((a < k \<and> (\<exists>x. dest_of ((pre @ [i]) ! k) = Some x \<and> x \<in> arg_set ((pre @ [i]) ! a)))
          \<or> (\<exists>x\<in>arg_set ((pre @ [i]) ! k). nearest_writer (pre @ [i]) (Suc k) x a))"
        by (intro exI [of _ k]) simp
    qed
  qed
  then show ?thesis unfolding dep_preds_def by simp
qed

lemma dep_preds_snoc_new:
  "dep_preds (pre @ [i]) (Suc (length pre)) =
     {Suc a | a. (a < length pre \<and> (\<exists>x. dest_of i = Some x \<and> x \<in> arg_set (pre ! a)))
                 \<or> (\<exists>x\<in>arg_set i. nearest_writer (pre @ [i]) (Suc (length pre)) x a)}"
  unfolding dep_preds_def by (auto simp: nth_append)

lemma dep_preds_range: "p \<in> dep_preds trace b \<Longrightarrow> 1 \<le> p \<and> p \<le> b \<and> b \<le> length trace"
  by (auto simp: dep_preds_def nearest_writer_def)

lemma scan_invD:
  assumes "scan_inv pre s"
  shows "fresh s = Suc (length pre)"
    and "\<And>j. j < length pre \<Longrightarrow> instr (heap s (Suc j)) = Instr (pre ! j)"
    and "succ_set (heap s) startNode = {Suc j | j. j < length pre}"
    and "\<And>a b. a \<noteq> startNode \<Longrightarrow> (b \<in> succ_set (heap s) a) = (a \<in> pred_set (heap s) b)"
    and "\<And>b. pred_set (heap s) b = dep_preds pre b"
    and "\<And>x w. (written s x = Some w) = (\<exists>a. w = Suc a \<and> nearest_writer pre (length pre) x a)"
    and "\<And>x. readers_set (read s) x = {Suc a | a. a < length pre \<and> x \<in> arg_set (pre ! a)}"
proof -
  from assms have all: "fresh s = Suc (length pre)
      \<and> (\<forall>j<length pre. instr (heap s (Suc j)) = Instr (pre ! j))
      \<and> succ_set (heap s) startNode = {Suc j | j. j < length pre}
      \<and> (\<forall>a b. a \<noteq> startNode \<longrightarrow> (b \<in> succ_set (heap s) a) = (a \<in> pred_set (heap s) b))
      \<and> (\<forall>b. pred_set (heap s) b = dep_preds pre b)
      \<and> (\<forall>x w. (written s x = Some w) = (\<exists>a. w = Suc a \<and> nearest_writer pre (length pre) x a))
      \<and> (\<forall>x. readers_set (read s) x = {Suc a | a. a < length pre \<and> x \<in> arg_set (pre ! a)})"
    unfolding scan_inv_def .
  from all show "fresh s = Suc (length pre)" by (elim conjE)
  from all show "\<And>j. j < length pre \<Longrightarrow> instr (heap s (Suc j)) = Instr (pre ! j)"
    by (elim conjE) (erule allE, erule (1) mp)
  from all show "succ_set (heap s) startNode = {Suc j | j. j < length pre}" by (elim conjE)
  from all show "\<And>a b. a \<noteq> startNode \<Longrightarrow> (b \<in> succ_set (heap s) a) = (a \<in> pred_set (heap s) b)"
    by (elim conjE) (rule rev_mp, assumption, rule spec, rule spec, assumption)
  from all show "\<And>b. pred_set (heap s) b = dep_preds pre b"
    by (elim conjE) (rule spec, assumption)
  from all show "\<And>x w. (written s x = Some w) = (\<exists>a. w = Suc a \<and> nearest_writer pre (length pre) x a)"
    by (elim conjE) (rule spec, rule spec, assumption)
  from all show "\<And>x. readers_set (read s) x = {Suc a | a. a < length pre \<and> x \<in> arg_set (pre ! a)}"
    by (elim conjE) (rule spec, assumption)
qed

lemma scan_inv_init: "scan_inv [] df_init"
  unfolding scan_inv_def
proof (intro conjI allI impI)
  show "fresh df_init = Suc (length [])" by (simp add: df_init_def startNode_def)
  show "succ_set (heap df_init) startNode = {Suc j | j. j < length []}"
    by (simp add: df_init_def succ_set_def new_node_def)
  show "pred_set (heap df_init) b = dep_preds [] b" for b
    by (simp add: df_init_def pred_set_def new_node_def dep_preds_def)
  show "(b \<in> succ_set (heap df_init) a) = (a \<in> pred_set (heap df_init) b)" for a b
    by (simp add: df_init_def succ_set_def pred_set_def new_node_def)
  show "(written df_init x = Some w) = (\<exists>a. w = Suc a \<and> nearest_writer [] (length []) x a)" for x w
    by (simp add: df_init_def nearest_writer_def)
  show "readers_set (read df_init) x = {Suc a | a. a < length [] \<and> x \<in> arg_set ([] ! a)}" for x
    by (simp add: df_init_def readers_set_def)
qed simp

lemma step_c6:
  assumes inv: "scan_inv pre s"
  shows "(written (dataflow_instr s i) x = Some w)
       = (\<exists>a. w = Suc a \<and> nearest_writer (pre @ [i]) (Suc (length pre)) x a)"
proof (cases "dest_of i = Some x")
  case True
  then show ?thesis
    by (auto simp: step_written scan_invD(1) [OF inv] nearest_writer_snoc)
next
  case False
  then show ?thesis
    by (cases "dest_of i") (simp_all add: step_written scan_invD(6) [OF inv] nearest_writer_snoc)
qed

lemma step_c2:
  assumes inv: "scan_inv pre s" and j: "j < length (pre @ [i])"
  shows "instr (heap (dataflow_instr s i) (Suc j)) = Instr ((pre @ [i]) ! j)"
proof (cases "j = length pre")
  case True
  then show ?thesis by (simp add: step_instr scan_invD(1) [OF inv])
next
  case False
  with j have "j < length pre" by simp
  then show ?thesis
    using scan_invD(2) [OF inv, of j] by (simp add: step_instr scan_invD(1) [OF inv] nth_append)
qed

lemma snoc_index_set:
  "{Suc a | a. a < length (pre @ [i]) \<and> P ((pre @ [i]) ! a)}
     = {Suc a | a. a < length pre \<and> P (pre ! a)} \<union> (if P i then {Suc (length pre)} else {})"
proof (rule set_eqI)
  fix p
  show "p \<in> {Suc a | a. a < length (pre @ [i]) \<and> P ((pre @ [i]) ! a)}
      \<longleftrightarrow> p \<in> {Suc a | a. a < length pre \<and> P (pre ! a)} \<union> (if P i then {Suc (length pre)} else {})"
  proof
    assume "p \<in> {Suc a | a. a < length (pre @ [i]) \<and> P ((pre @ [i]) ! a)}"
    then obtain a where a: "p = Suc a" "a < length (pre @ [i])" "P ((pre @ [i]) ! a)" by blast
    show "p \<in> {Suc a | a. a < length pre \<and> P (pre ! a)} \<union> (if P i then {Suc (length pre)} else {})"
    proof (cases "a = length pre")
      case True
      with a show ?thesis by simp
    next
      case False
      with a have "a < length pre" by simp
      with a show ?thesis by (simp add: nth_append)
    qed
  next
    assume "p \<in> {Suc a | a. a < length pre \<and> P (pre ! a)} \<union> (if P i then {Suc (length pre)} else {})"
    then consider a where "p = Suc a" "a < length pre" "P (pre ! a)" | "P i" "p = Suc (length pre)"
      by (auto split: if_splits)
    then show "p \<in> {Suc a | a. a < length (pre @ [i]) \<and> P ((pre @ [i]) ! a)}"
    proof cases
      case 1
      then have "a < length (pre @ [i])" "P ((pre @ [i]) ! a)" by (simp_all add: nth_append)
      with 1 show ?thesis by blast
    next
      case 2
      then have "length pre < length (pre @ [i])" "P ((pre @ [i]) ! length pre)" by simp_all
      with 2 show ?thesis by blast
    qed
  qed
qed

lemma step_c7:
  assumes inv: "scan_inv pre s"
  shows "readers_set (read (dataflow_instr s i)) x
       = {Suc a | a. a < length (pre @ [i]) \<and> x \<in> arg_set ((pre @ [i]) ! a)}"
proof -
  have "readers_set (read (dataflow_instr s i)) x
      = (if x \<in> arg_set i then insert (fresh s) (readers_set (read s) x) else readers_set (read s) x)"
    by (rule step_readers)
  also have "\<dots> = {Suc a | a. a < length pre \<and> x \<in> arg_set (pre ! a)}
        \<union> (if x \<in> arg_set i then {Suc (length pre)} else {})"
    unfolding scan_invD(7) [OF inv] scan_invD(1) [OF inv] by simp
  also have "\<dots> = {Suc a | a. a < length (pre @ [i]) \<and> x \<in> arg_set ((pre @ [i]) ! a)}"
    by (rule snoc_index_set [where P = "\<lambda>j. x \<in> arg_set j", symmetric])
  finally show ?thesis .
qed

lemma step_c3:
  assumes inv: "scan_inv pre s"
  shows "succ_set (heap (dataflow_instr s i)) startNode = {Suc j | j. j < length (pre @ [i])}"
proof -
  have split: "{Suc j | j. j < length (pre @ [i])} = {Suc j | j. j < length pre} \<union> {Suc (length pre)}"
    by (auto simp: less_Suc_eq)
  have "startNode \<noteq> Suc (length pre)" by (simp add: startNode_def)
  then show ?thesis
    unfolding split by (simp add: step_succ_set scan_invD(3) [OF inv] scan_invD(1) [OF inv])
qed

lemma step_new_preds:
  assumes inv: "scan_inv pre s"
  shows "pred_set (heap (dataflow_instr s i)) (Suc (length pre)) = dep_preds (pre @ [i]) (Suc (length pre))"
proof (rule set_eqI)
  fix p
  let ?A = "case dest_of i of None \<Rightarrow> {} | Some d \<Rightarrow> readers_set (read s) d"
  let ?B = "{p. \<exists>x\<in>arg_set i. written (dataflow_instr s i) x = Some p}"
  have A: "p \<in> ?A \<longleftrightarrow> (\<exists>a. p = Suc a \<and> a < length pre \<and> (\<exists>x. dest_of i = Some x \<and> x \<in> arg_set (pre ! a)))"
  proof (cases "dest_of i")
    case None
    then show ?thesis by simp
  next
    case (Some d)
    have "p \<in> readers_set (read s) d \<longleftrightarrow> (\<exists>a. p = Suc a \<and> a < length pre \<and> d \<in> arg_set (pre ! a))"
      unfolding scan_invD(7) [OF inv] by blast
    with Some show ?thesis by simp
  qed
  have B: "p \<in> ?B \<longleftrightarrow> (\<exists>a. p = Suc a \<and> (\<exists>x\<in>arg_set i. nearest_writer (pre @ [i]) (Suc (length pre)) x a))"
    unfolding mem_Collect_eq step_c6 [OF inv] by blast
  have "p \<in> pred_set (heap (dataflow_instr s i)) (Suc (length pre)) \<longleftrightarrow> p \<in> ?A \<or> p \<in> ?B"
    by (simp add: step_pred_set scan_invD(1) [OF inv])
  also have "\<dots> \<longleftrightarrow> p \<in> dep_preds (pre @ [i]) (Suc (length pre))"
    unfolding A B dep_preds_snoc_new by blast
  finally show "p \<in> pred_set (heap (dataflow_instr s i)) (Suc (length pre))
      \<longleftrightarrow> p \<in> dep_preds (pre @ [i]) (Suc (length pre))" .
qed

lemma step_c5:
  assumes inv: "scan_inv pre s"
  shows "pred_set (heap (dataflow_instr s i)) b = dep_preds (pre @ [i]) b"
proof (cases "b = Suc (length pre)")
  case True
  with step_new_preds [OF inv] show ?thesis by simp
next
  case False
  then show ?thesis
    by (simp add: step_pred_set scan_invD(1) [OF inv] scan_invD(5) [OF inv] dep_preds_snoc_old)
qed

lemma step_c4:
  assumes inv: "scan_inv pre s" and a: "a \<noteq> startNode"
  shows "(b \<in> succ_set (heap (dataflow_instr s i)) a) = (a \<in> pred_set (heap (dataflow_instr s i)) b)"
proof -
  let ?k = "length pre"
  let ?s = "dataflow_instr s i"
  let ?new = "(\<exists>d. dest_of i = Some d \<and> a \<in> readers_set (read s) d)
              \<or> (\<exists>x\<in>arg_set i. written ?s x = Some a)"
  note fr = scan_invD(1) [OF inv] and con = scan_invD(4) [OF inv] and pr = scan_invD(5) [OF inv]
  have old_no_new: "Suc ?k \<notin> pred_set (heap s) b'" for b'
    unfolding pr using dep_preds_range [of "Suc ?k" pre b'] by auto
  have new_empty: "p \<notin> pred_set (heap s) (Suc ?k)" for p
    unfolding pr using dep_preds_range [of p pre "Suc ?k"] by auto
  have succ: "(b \<in> succ_set (heap ?s) a) = ((a \<noteq> Suc ?k \<and> b \<in> succ_set (heap s) a) \<or> (?new \<and> b = Suc ?k))"
    using a by (simp add: step_succ_set fr) blast
  show ?thesis
  proof (cases "b = Suc ?k")
    case True
    have "Suc ?k \<notin> succ_set (heap s) a"
      using con [OF a, of "Suc ?k"] new_empty [of a] by simp
    with succ True have "(b \<in> succ_set (heap ?s) a) = ?new" by blast
    also have "?new = (a \<in> pred_set (heap ?s) (Suc ?k))"
      by (cases "dest_of i") (simp_all add: step_pred_set fr)
    finally show ?thesis using True by simp
  next
    case False
    have p: "(a \<in> pred_set (heap ?s) b) = (a \<in> pred_set (heap s) b)"
      using False by (simp add: step_pred_set fr)
    show ?thesis
    proof (cases "a = Suc ?k")
      case True
      with succ False old_no_new [of b] p show ?thesis by simp
    next
      case an: False
      with succ False have "(b \<in> succ_set (heap ?s) a) = (b \<in> succ_set (heap s) a)" by simp
      with con [OF a, of b] p show ?thesis by simp
    qed
  qed
qed

lemma scan_inv_step:
  assumes inv: "scan_inv pre s"
  shows "scan_inv (pre @ [i]) (dataflow_instr s i)"
  unfolding scan_inv_def
proof (intro conjI allI impI)
  show "fresh (dataflow_instr s i) = Suc (length (pre @ [i]))"
    by (simp add: step_fresh scan_invD(1) [OF inv])
  show "instr (heap (dataflow_instr s i) (Suc j)) = Instr ((pre @ [i]) ! j)"
    if "j < length (pre @ [i])" for j
    using inv that by (rule step_c2)
  show "succ_set (heap (dataflow_instr s i)) startNode = {Suc j | j. j < length (pre @ [i])}"
    using inv by (rule step_c3)
  show "(b \<in> succ_set (heap (dataflow_instr s i)) a) = (a \<in> pred_set (heap (dataflow_instr s i)) b)"
    if "a \<noteq> startNode" for a b
    using inv that by (rule step_c4)
  show "pred_set (heap (dataflow_instr s i)) b = dep_preds (pre @ [i]) b" for b
    using inv by (rule step_c5)
  show "(written (dataflow_instr s i) x = Some w)
      = (\<exists>a. w = Suc a \<and> nearest_writer (pre @ [i]) (length (pre @ [i])) x a)" for x w
    using step_c6 [OF inv, of i x w] by simp
  show "readers_set (read (dataflow_instr s i)) x
      = {Suc a | a. a < length (pre @ [i]) \<and> x \<in> arg_set ((pre @ [i]) ! a)}" for x
    using inv by (rule step_c7)
qed

lemma scan_inv_scan: "scan_inv trace (dataflow_scan trace)"
proof (induction trace rule: rev_induct)
  case Nil
  then show ?case by (simp add: dataflow_scan_def scan_inv_init)
next
  case (snoc i pre)
  then show ?case by (simp add: dataflow_scan_def scan_inv_step)
qed

section \<open>The dependence edges of dataflow\<close>

lemma dataflow_pred_set: "pred_set (fst (dataflow trace)) b = dep_preds trace b"
  using scan_invD(5) [OF scan_inv_scan, of trace b] by (simp add: dataflow_def)

lemma dataflow_consistent:
  "a \<noteq> startNode \<Longrightarrow>
   (b \<in> succ_set (fst (dataflow trace)) a) = (a \<in> pred_set (fst (dataflow trace)) b)"
  using scan_invD(4) [OF scan_inv_scan, of a b trace] by (simp add: dataflow_def)

lemma dataflow_start_succs:
  "succ_set (fst (dataflow trace)) startNode = {Suc j | j. j < length trace}"
  using scan_invD(3) [OF scan_inv_scan, of trace] by (simp add: dataflow_def)

lemma dataflow_instr_at:
  "j < length trace \<Longrightarrow> instr (fst (dataflow trace) (Suc j)) = Instr (trace ! j)"
  using scan_invD(2) [OF scan_inv_scan, of j trace] by (simp add: dataflow_def)

lemma dataflow_dag_ok: "dag_ok (fst (dataflow trace)) (length trace)"
  unfolding dag_ok_def
proof (intro conjI allI impI)
  show "succ_set (fst (dataflow trace)) startNode = {Suc j | j. j < length trace}"
    by (rule dataflow_start_succs)
  show "(b \<in> succ_set (fst (dataflow trace)) a) = (a \<in> pred_set (fst (dataflow trace)) b)"
    if "a \<noteq> startNode" for a b
    using that by (rule dataflow_consistent)
  show "1 \<le> a" "a \<le> b" "b \<le> length trace" if "a \<in> pred_set (fst (dataflow trace)) b" for a b
    using that dep_preds_range [of a trace b] by (simp_all add: dataflow_pred_set)
  show "instr (fst (dataflow trace) n) \<noteq> Start" if "1 \<le> n \<and> n \<le> length trace" for n
  proof -
    from that obtain j where "n = Suc j" "j < length trace" by (cases n) auto
    then show ?thesis by (simp add: dataflow_instr_at)
  qed
qed

lemma dep_preds_strict:
  assumes "\<And>i. i \<in> set trace \<Longrightarrow> \<not> reads_own_dest i" and "a \<in> dep_preds trace b"
  shows "a < b"
proof -
  from assms(2) obtain a' k where ak: "a = Suc a'" "b = Suc k" "k < length trace"
    and disj: "(a' < k \<and> (\<exists>x. dest_of (trace ! k) = Some x \<and> x \<in> arg_set (trace ! a')))
          \<or> (\<exists>x\<in>arg_set (trace ! k). nearest_writer trace (Suc k) x a')"
    unfolding dep_preds_def by blast
  from disj have "a' < k"
  proof
    assume "a' < k \<and> (\<exists>x. dest_of (trace ! k) = Some x \<and> x \<in> arg_set (trace ! a'))"
    then show ?thesis by simp
  next
    assume "\<exists>x\<in>arg_set (trace ! k). nearest_writer trace (Suc k) x a'"
    then obtain x where x: "x \<in> arg_set (trace ! k)" "nearest_writer trace (Suc k) x a'" by blast
    have "a' \<noteq> k"
    proof
      assume "a' = k"
      with x have "reads_own_dest (trace ! k)"
        by (simp add: nearest_writer_def reads_own_dest_def)
      moreover have "trace ! k \<in> set trace" using ak by simp
      ultimately show False using assms(1) by blast
    qed
    with x show ?thesis by (simp add: nearest_writer_def)
  qed
  with ak show ?thesis by simp
qed

text \<open>
  Every edge of the graph leads from a node to one created later, except the edge of an
  instruction that reads its own destination, which leads from its node to itself.
\<close>

lemma dataflow_edges_forward:
  assumes "a \<in> pred_set (fst (dataflow trace)) b"
  shows "1 \<le> a \<and> a \<le> b \<and> b \<le> length trace \<and> (a = b \<longrightarrow> reads_own_dest (trace ! (b - 1)))"
proof -
  from assms have d: "a \<in> dep_preds trace b" by (simp add: dataflow_pred_set)
  then have r: "1 \<le> a \<and> a \<le> b \<and> b \<le> length trace" by (rule dep_preds_range)
  have "reads_own_dest (trace ! (b - 1))" if "a = b"
  proof -
    from d that obtain k where k: "b = Suc k" "k < length trace"
      and disj: "(k < k \<and> (\<exists>x. dest_of (trace ! k) = Some x \<and> x \<in> arg_set (trace ! k)))
          \<or> (\<exists>x\<in>arg_set (trace ! k). nearest_writer trace (Suc k) x k)"
      unfolding dep_preds_def by auto
    then obtain x where "x \<in> arg_set (trace ! k)" "dest_of (trace ! k) = Some x"
      by (auto simp: nearest_writer_def)
    with k show ?thesis by (simp add: reads_own_dest_def)
  qed
  with r show ?thesis by blast
qed

text \<open>
  The part of C4 that the code does satisfy: when the reading instruction does not itself
  write the identifier, the edge from the nearest preceding writer is there.
\<close>

lemma dataflow_true_dependence:
  assumes b: "b < length trace" and x: "x \<in> arg_set (trace ! b)"
    and nw: "nearest_writer trace b x a" and nd: "dest_of (trace ! b) \<noteq> Some x"
  shows "Suc a \<in> pred_set (fst (dataflow trace)) (Suc b)
       \<and> Suc b \<in> succ_set (fst (dataflow trace)) (Suc a)"
proof -
  have "nearest_writer trace (Suc b) x a"
    unfolding nearest_writer_def
  proof (intro conjI allI impI)
    from nw show "a < Suc b" "dest_of (trace ! a) = Some x" by (simp_all add: nearest_writer_def)
    fix j assume j: "a < j \<and> j < Suc b"
    show "dest_of (trace ! j) \<noteq> Some x"
    proof (cases "j = b")
      case True
      with nd show ?thesis by simp
    next
      case False
      with j have "a < j \<and> j < b" by simp
      with nw show ?thesis unfolding nearest_writer_def by blast
    qed
  qed
  with b x have "Suc a \<in> dep_preds trace (Suc b)"
    unfolding dep_preds_def by blast
  then have "Suc a \<in> pred_set (fst (dataflow trace)) (Suc b)" by (simp add: dataflow_pred_set)
  moreover from this have "Suc b \<in> succ_set (fst (dataflow trace)) (Suc a)"
    by (simp add: dataflow_consistent startNode_def)
  ultimately show ?thesis by simp
qed

text \<open>
  C5 (as amended). For an instruction C at position \<open>c\<close> with destination \<open>x\<close>, the
  predecessors of its node are exactly the nodes of all earlier instructions that list \<open>x\<close>
  among their arguments, whether or not \<open>x\<close> is written in between (the readers are never
  cleared), together with the nodes that the scan has recorded as writers of the arguments of C.
\<close>

theorem dataflow_anti_dependence:
  assumes c: "c < length trace" and d: "dest_of (trace ! c) = Some x"
  shows "set (preds (fst (dataflow trace) (Suc c))) =
           {Suc a | a. a < c \<and> x \<in> arg_set (trace ! a)}
           \<union> {Suc a | a. \<exists>y\<in>arg_set (trace ! c). nearest_writer trace (Suc c) y a}"
proof -
  have "set (preds (fst (dataflow trace) (Suc c))) = dep_preds trace (Suc c)"
    using dataflow_pred_set [of trace "Suc c"] by (simp add: pred_set_def)
  also have "\<dots> = {Suc a | a. a < c \<and> x \<in> arg_set (trace ! a)}
           \<union> {Suc a | a. \<exists>y\<in>arg_set (trace ! c). nearest_writer trace (Suc c) y a}"
    unfolding dep_preds_def using c d by auto
  finally show ?thesis .
qed

theorem dataflow_anti_dependence_witness:
  "2 < length [Effect (EffectOp Print [''x'']), Constant (NumV 1) ''x'' TInt, Constant (NumV 2) ''x'' TInt]
   \<and> dest_of ([Effect (EffectOp Print [''x'']), Constant (NumV 1) ''x'' TInt,
                Constant (NumV 2) ''x'' TInt] ! 2) = Some ''x''
   \<and> set (preds (fst (dataflow [Effect (EffectOp Print [''x'']), Constant (NumV 1) ''x'' TInt,
                                 Constant (NumV 2) ''x'' TInt]) (Suc 2))) =
           {Suc a | a. a < 2 \<and> ''x'' \<in> arg_set ([Effect (EffectOp Print [''x'']),
                Constant (NumV 1) ''x'' TInt, Constant (NumV 2) ''x'' TInt] ! a)}
           \<union> {Suc a | a. \<exists>y\<in>arg_set ([Effect (EffectOp Print [''x'']),
                Constant (NumV 1) ''x'' TInt, Constant (NumV 2) ''x'' TInt] ! 2).
                  nearest_writer [Effect (EffectOp Print [''x'']), Constant (NumV 1) ''x'' TInt,
                                  Constant (NumV 2) ''x'' TInt] (Suc 2) y a}"
  using dataflow_anti_dependence
    [of 2 "[Effect (EffectOp Print [''x'']), Constant (NumV 1) ''x'' TInt, Constant (NumV 2) ''x'' TInt]" "''x''"]
  by simp

section \<open>The scheduling loop keeps its invariants\<close>

lemma sets_invD:
  assumes "sets_inv h N Q U S D"
  shows "D \<subseteq> S" and "Q \<inter> S = {}" and "U \<inter> S = {}" and "Q \<inter> U = {}"
    and "Q \<union> U \<union> S \<subseteq> {n. 1 \<le> n \<and> n \<le> N}"
    and "\<And>n. n \<in> Q \<Longrightarrow> pred_set h n \<subseteq> D"
    and "\<And>n. n \<in> U \<Longrightarrow> pred_set h n \<subseteq> S"
    and "\<And>n. n \<in> S \<Longrightarrow> pred_set h n \<subseteq> S"
    and "\<And>n. 1 \<le> n \<Longrightarrow> n \<le> N \<Longrightarrow> n \<notin> S \<Longrightarrow> pred_set h n \<subseteq> S \<Longrightarrow> n \<in> Q \<union> U"
  using assms unfolding sets_inv_def by blast+

lemma dag_okD:
  assumes "dag_ok h N"
  shows "succ_set h startNode = {Suc j | j. j < N}"
    and "\<And>a b. a \<noteq> startNode \<Longrightarrow> (b \<in> succ_set h a) = (a \<in> pred_set h b)"
    and "\<And>a b. a \<in> pred_set h b \<Longrightarrow> 1 \<le> a \<and> a \<le> b \<and> b \<le> N"
    and "\<And>n. 1 \<le> n \<Longrightarrow> n \<le> N \<Longrightarrow> instr (h n) \<noteq> Start"
  using assms unfolding dag_ok_def by blast+

lemma sets_inv_reject:
  assumes inv: "sets_inv h N Q U S D" and n: "n \<in> Q"
  shows "sets_inv h N (Q - {n}) (insert n U) S D"
proof -
  note I = sets_invD [OF inv]
  have nS: "n \<notin> S" using I(2) n by blast
  have pn: "pred_set h n \<subseteq> S" using I(6) [OF n] I(1) by blast
  show ?thesis
    unfolding sets_inv_def
  proof (intro conjI ballI allI impI)
    show "D \<subseteq> S" by (rule I(1))
    show "(Q - {n}) \<inter> S = {}" using I(2) by blast
    show "insert n U \<inter> S = {}" using I(3) nS by blast
    show "(Q - {n}) \<inter> insert n U = {}" using I(4) by blast
    show "Q - {n} \<union> insert n U \<union> S \<subseteq> {n. 1 \<le> n \<and> n \<le> N}" using I(5) n by blast
    show "pred_set h m \<subseteq> D" if "m \<in> Q - {n}" for m using that I(6) [of m] by blast
    show "pred_set h m \<subseteq> S" if "m \<in> insert n U" for m using that I(7) [of m] pn by blast
    show "pred_set h m \<subseteq> S" if "m \<in> S" for m using that by (rule I(8))
    show "m \<in> Q - {n} \<union> insert n U"
      if "1 \<le> m \<and> m \<le> N \<and> m \<notin> S \<and> pred_set h m \<subseteq> S" for m
      using that I(9) [of m] by blast
  qed
qed

lemma sets_inv_final:
  assumes inv: "sets_inv h N {} U S D"
  shows "sets_inv h N U {} S S"
proof -
  note I = sets_invD [OF inv]
  show ?thesis
    unfolding sets_inv_def
  proof (intro conjI ballI allI impI)
    show "S \<subseteq> S" by simp
    show "U \<inter> S = {}" by (rule I(3))
    show "{} \<inter> S = {}" by simp
    show "U \<inter> {} = {}" by simp
    show "U \<union> {} \<union> S \<subseteq> {n. 1 \<le> n \<and> n \<le> N}" using I(5) by blast
    show "pred_set h m \<subseteq> S" if "m \<in> U" for m using that by (rule I(7))
    show "pred_set h m \<subseteq> S" if "m \<in> {}" for m using that by simp
    show "pred_set h m \<subseteq> S" if "m \<in> S" for m using that by (rule I(8))
    show "m \<in> U \<union> {}" if "1 \<le> m \<and> m \<le> N \<and> m \<notin> S \<and> pred_set h m \<subseteq> S" for m
      using that I(9) [of m] by blast
  qed
qed

lemma sets_inv_commit:
  assumes dag: "dag_ok h N" and inv: "sets_inv h N Q U S D" and n: "n \<in> Q"
  shows "sets_inv h N (Q - {n}) (U \<union> {c \<in> succ_set h n. pred_set h c \<subseteq> insert n S}) (insert n S) D"
proof -
  note I = sets_invD [OF inv] and G = dag_okD [OF dag]
  let ?C = "{c \<in> succ_set h n. pred_set h c \<subseteq> insert n S}"
  have nS: "n \<notin> S" using I(2) n by blast
  have nU: "n \<notin> U" using I(4) n by blast
  have n1: "1 \<le> n" "n \<le> N" using I(5) n by blast+
  then have nst: "n \<noteq> startNode" by (simp add: startNode_def)
  have pn: "pred_set h n \<subseteq> S" using I(6) [OF n] I(1) by blast
  have child: "n \<in> pred_set h c" if "c \<in> ?C" for c
    using that G(2) [OF nst, of c] by simp
  have cS: "c \<notin> S" if "c \<in> ?C" for c
    using child [OF that] I(8) [of c] nS by blast
  have cn: "c \<noteq> n" if "c \<in> ?C" for c
    using child [OF that] pn nS by blast
  have cQ: "c \<notin> Q" if "c \<in> ?C" for c
    using child [OF that] I(6) [of c] I(1) nS by blast
  have cr: "1 \<le> c \<and> c \<le> N" if "c \<in> ?C" for c
    using G(3) [OF child [OF that]] by simp
  show ?thesis
    unfolding sets_inv_def
  proof (intro conjI ballI allI impI)
    show "D \<subseteq> insert n S" using I(1) by blast
    show "(Q - {n}) \<inter> insert n S = {}" using I(2) by blast
    show "(U \<union> ?C) \<inter> insert n S = {}" using I(3) nU cS cn by blast
    show "(Q - {n}) \<inter> (U \<union> ?C) = {}" using I(4) cQ by blast
    show "Q - {n} \<union> (U \<union> ?C) \<union> insert n S \<subseteq> {n. 1 \<le> n \<and> n \<le> N}"
      using I(5) cr n1 by blast
    show "pred_set h m \<subseteq> D" if "m \<in> Q - {n}" for m using that I(6) [of m] by blast
    show "pred_set h m \<subseteq> insert n S" if "m \<in> U \<union> ?C" for m
      using that I(7) [of m] by blast
    show "pred_set h m \<subseteq> insert n S" if "m \<in> insert n S" for m
      using that I(8) [of m] pn by blast
    show "m \<in> Q - {n} \<union> (U \<union> ?C)"
      if m: "1 \<le> m \<and> m \<le> N \<and> m \<notin> insert n S \<and> pred_set h m \<subseteq> insert n S" for m
    proof (cases "pred_set h m \<subseteq> S")
      case True
      with m I(9) [of m] show ?thesis by blast
    next
      case False
      with m have "n \<in> pred_set h m" by blast
      then have "m \<in> succ_set h n" using G(2) [OF nst, of m] by simp
      with m show ?thesis by blast
    qed
  qed
qed

lemma sched_invD:
  assumes "sched_inv h N bs cur s"
  shows "map (\<lambda>n. instr (h n)) cur = map Instr (currentGroup s)"
    and "list_all2 (\<lambda>b g. \<exists>is. map (\<lambda>n. instr (h n)) b = map Instr is \<and> toGroup is = Inr g)
            bs (schedule s)"
    and "set (scheduled s) = set (concat bs) \<union> set cur"
    and "distinct (concat bs @ cur)"
    and "\<And>j n. j < length bs \<Longrightarrow> n \<in> set (bs ! j) \<Longrightarrow> pred_set h n \<subseteq> set (concat (take j bs))"
    and "\<And>n. n \<in> set cur \<Longrightarrow> pred_set h n \<subseteq> set (concat bs)"
    and "sets_inv h N (set (queue s)) (set (toUpdate s)) (set (scheduled s)) (set (concat bs))"
  using assms unfolding sched_inv_def by blast+

lemma subset_of_iff: "subset_of xs ys \<longleftrightarrow> set xs \<subseteq> set ys"
  by (induction xs) auto

lemma ready_children_set:
  "set (ready_children h sch cs tu) = set tu \<union> {c \<in> set cs. pred_set h c \<subseteq> set sch}"
  unfolding ready_children_def
  by (induction cs arbitrary: tu) (auto simp: subset_of_iff pred_set_def set_set_add)

lemma fold_set_add_set: "set (fold set_add xs q) = set q \<union> set xs"
  by (induction xs arbitrary: q) (auto simp: set_set_add)

lemma PQueue_fold_Some:
  "\<exists>b. fold (\<lambda>item best. case best of None \<Rightarrow> Some item
                           | Some b \<Rightarrow> if compare b item then Some item else Some b) t (Some a) = Some b
       \<and> (b = a \<or> b \<in> set t)"
  by (induction t arbitrary: a) auto

lemma PQueue_next_cases:
  "(t = [] \<and> PQueue_next compare t = (None, []))
   \<or> (\<exists>n. n \<in> set t \<and> PQueue_next compare t = (Some n, removeAll n t))"
proof (cases t)
  case Nil
  then show ?thesis by (simp add: PQueue_next_def PQueue_best_def)
next
  case (Cons x xs)
  from PQueue_fold_Some [of compare xs x] obtain b where
    "PQueue_best compare t = Some b" "b = x \<or> b \<in> set xs"
    unfolding PQueue_best_def Cons by auto
  with Cons show ?thesis by (auto simp: PQueue_next_def)
qed

lemma sched_body_empty: "queue s = [] \<Longrightarrow> sched_body h valid s = finalize s []"
  by (simp add: sched_body_def PQueue_next_def PQueue_best_def)

lemma sched_body_pop:
  assumes "queue s \<noteq> []"
  shows "\<exists>n. n \<in> set (queue s) \<and> sched_body h valid s =
     (case instr (h n) of
        Start \<Rightarrow> finalize s (removeAll n (queue s))
      | Instr i \<Rightarrow>
          if valid (currentGroup s) i
          then Inl (s\<lparr>queue := removeAll n (queue s), currentGroup := currentGroup s @ [i],
                      scheduled := set_add n (scheduled s),
                      toUpdate := ready_children h (set_add n (scheduled s)) (succs (h n)) (toUpdate s)\<rparr>)
          else Inl (s\<lparr>queue := removeAll n (queue s), toUpdate := set_add n (toUpdate s)\<rparr>))"
proof -
  from PQueue_next_cases [of "queue s" "\<lambda>a b. nodeCompare (h a) (h b)"] assms
  obtain n where n: "n \<in> set (queue s)"
    "PQueue_next (\<lambda>a b. nodeCompare (h a) (h b)) (queue s) = (Some n, removeAll n (queue s))"
    by blast
  show ?thesis
    by (rule exI [of _ n]) (simp add: n sched_body_def Let_def split: node_instr.splits)
qed

lemma set_concat_take: "set (concat (take j bs)) \<subseteq> set (concat bs)"
  by (auto dest: in_set_takeD)

lemma sched_inv_reject:
  assumes inv: "sched_inv h N bs cur s" and n: "n \<in> set (queue s)"
  shows "sched_inv h N bs cur (s\<lparr>queue := removeAll n (queue s), toUpdate := set_add n (toUpdate s)\<rparr>)"
proof -
  note I = sched_invD [OF inv]
  have "sets_inv h N (set (queue s) - {n}) (insert n (set (toUpdate s))) (set (scheduled s))
          (set (concat bs))"
    using I(7) n by (rule sets_inv_reject)
  with I(1-6) show ?thesis
    unfolding sched_inv_def by (simp add: set_set_add)
qed

lemma sched_inv_commit:
  assumes dag: "dag_ok h N" and inv: "sched_inv h N bs cur s" and n: "n \<in> set (queue s)"
    and i: "instr (h n) = Instr i"
  shows "sched_inv h N bs (cur @ [n])
           (s\<lparr>queue := removeAll n (queue s), currentGroup := currentGroup s @ [i],
               scheduled := set_add n (scheduled s),
               toUpdate := ready_children h (set_add n (scheduled s)) (succs (h n)) (toUpdate s)\<rparr>)"
proof -
  note I = sched_invD [OF inv]
  note S = sets_invD [OF I(7)]
  have sets: "sets_inv h N (set (queue s) - {n})
          (set (toUpdate s) \<union> {c \<in> succ_set h n. pred_set h c \<subseteq> insert n (set (scheduled s))})
          (insert n (set (scheduled s))) (set (concat bs))"
    using dag I(7) n by (rule sets_inv_commit)
  have nS: "n \<notin> set (scheduled s)" using S(2) n by blast
  have pn: "pred_set h n \<subseteq> set (concat bs)" using S(6) [OF n] .
  show ?thesis
    unfolding sched_inv_def
  proof (intro conjI allI impI ballI)
    show "map (\<lambda>n. instr (h n)) (cur @ [n]) = map Instr (currentGroup (s\<lparr>queue := removeAll n (queue s),
               currentGroup := currentGroup s @ [i], scheduled := set_add n (scheduled s),
               toUpdate := ready_children h (set_add n (scheduled s)) (succs (h n)) (toUpdate s)\<rparr>))"
      using I(1) i by simp
    show "list_all2 (\<lambda>b g. \<exists>is. map (\<lambda>n. instr (h n)) b = map Instr is \<and> toGroup is = Inr g) bs
       (schedule (s\<lparr>queue := removeAll n (queue s),
               currentGroup := currentGroup s @ [i], scheduled := set_add n (scheduled s),
               toUpdate := ready_children h (set_add n (scheduled s)) (succs (h n)) (toUpdate s)\<rparr>))"
      using I(2) by simp
    show "set (scheduled (s\<lparr>queue := removeAll n (queue s),
               currentGroup := currentGroup s @ [i], scheduled := set_add n (scheduled s),
               toUpdate := ready_children h (set_add n (scheduled s)) (succs (h n)) (toUpdate s)\<rparr>))
        = set (concat bs) \<union> set (cur @ [n])"
      using I(3) by (simp add: set_set_add)
    show "distinct (concat bs @ cur @ [n])"
      using I(4) I(3) nS by auto
    show "pred_set h m \<subseteq> set (concat (take j bs))" if "j < length bs" "m \<in> set (bs ! j)" for j m
      using that by (rule I(5))
    show "pred_set h m \<subseteq> set (concat bs)" if "m \<in> set (cur @ [n])" for m
      using that I(6) [of m] pn by auto
    show "sets_inv h N
       (set (queue (s\<lparr>queue := removeAll n (queue s),
               currentGroup := currentGroup s @ [i], scheduled := set_add n (scheduled s),
               toUpdate := ready_children h (set_add n (scheduled s)) (succs (h n)) (toUpdate s)\<rparr>)))
       (set (toUpdate (s\<lparr>queue := removeAll n (queue s),
               currentGroup := currentGroup s @ [i], scheduled := set_add n (scheduled s),
               toUpdate := ready_children h (set_add n (scheduled s)) (succs (h n)) (toUpdate s)\<rparr>)))
       (set (scheduled (s\<lparr>queue := removeAll n (queue s),
               currentGroup := currentGroup s @ [i], scheduled := set_add n (scheduled s),
               toUpdate := ready_children h (set_add n (scheduled s)) (succs (h n)) (toUpdate s)\<rparr>)))
       (set (concat bs))"
      using sets by (simp add: set_set_add ready_children_set succ_set_def)
  qed
qed

lemma sched_inv_finalize:
  assumes inv: "sched_inv h N bs cur s" and q: "queue s = []"
    and g: "toGroup (currentGroup s) = Inr g"
  shows "sched_inv h N (bs @ [cur]) []
           (s\<lparr>queue := fold set_add (toUpdate s) [], toUpdate := [], currentGroup := [],
               schedule := schedule s @ [g]\<rparr>)"
proof -
  note I = sched_invD [OF inv]
  have sets: "sets_inv h N (set (toUpdate s)) {} (set (scheduled s)) (set (scheduled s))"
    using I(7) unfolding q by (simp add: sets_inv_final)
  have S: "set (scheduled s) = set (concat (bs @ [cur]))" using I(3) by simp
  show ?thesis
    unfolding sched_inv_def
  proof (intro conjI allI impI ballI)
    show "map (\<lambda>n. instr (h n)) [] = map Instr (currentGroup (s\<lparr>queue := fold set_add (toUpdate s) [],
               toUpdate := [], currentGroup := [], schedule := schedule s @ [g]\<rparr>))"
      by simp
    have "list_all2 (\<lambda>b g. \<exists>is. map (\<lambda>n. instr (h n)) b = map Instr is \<and> toGroup is = Inr g) [cur] [g]"
      using I(1) g by auto
    with I(2) show "list_all2 (\<lambda>b g. \<exists>is. map (\<lambda>n. instr (h n)) b = map Instr is \<and> toGroup is = Inr g)
       (bs @ [cur]) (schedule (s\<lparr>queue := fold set_add (toUpdate s) [],
               toUpdate := [], currentGroup := [], schedule := schedule s @ [g]\<rparr>))"
      by (simp add: list_all2_appendI)
    show "set (scheduled (s\<lparr>queue := fold set_add (toUpdate s) [],
               toUpdate := [], currentGroup := [], schedule := schedule s @ [g]\<rparr>))
        = set (concat (bs @ [cur])) \<union> set []"
      using S by simp
    show "distinct (concat (bs @ [cur]) @ [])" using I(4) by simp
    show "pred_set h m \<subseteq> set (concat (take j (bs @ [cur])))"
      if j: "j < length (bs @ [cur])" and m: "m \<in> set ((bs @ [cur]) ! j)" for j m
    proof (cases "j < length bs")
      case True
      with m I(5) [of j m] show ?thesis by (simp add: nth_append)
    next
      case False
      with j have "j = length bs" by simp
      with m I(6) [of m] show ?thesis by simp
    qed
    show "pred_set h m \<subseteq> set (concat (bs @ [cur]))" if "m \<in> set []" for m
      using that by simp
    show "sets_inv h N
       (set (queue (s\<lparr>queue := fold set_add (toUpdate s) [],
               toUpdate := [], currentGroup := [], schedule := schedule s @ [g]\<rparr>)))
       (set (toUpdate (s\<lparr>queue := fold set_add (toUpdate s) [],
               toUpdate := [], currentGroup := [], schedule := schedule s @ [g]\<rparr>)))
       (set (scheduled (s\<lparr>queue := fold set_add (toUpdate s) [],
               toUpdate := [], currentGroup := [], schedule := schedule s @ [g]\<rparr>)))
       (set (concat (bs @ [cur])))"
      using sets unfolding S [symmetric] by (simp add: fold_set_add_set)
  qed
qed

lemma sched_body_forms:
  assumes dag: "dag_ok h N" and inv: "sched_inv h N bs cur s"
  shows "(queue s = [] \<and> sched_body h valid s = finalize s [])
       \<or> (\<exists>n i. n \<in> set (queue s) \<and> instr (h n) = Instr i \<and> valid (currentGroup s) i
             \<and> sched_body h valid s =
                 Inl (s\<lparr>queue := removeAll n (queue s), currentGroup := currentGroup s @ [i],
                        scheduled := set_add n (scheduled s),
                        toUpdate := ready_children h (set_add n (scheduled s)) (succs (h n)) (toUpdate s)\<rparr>))
       \<or> (\<exists>n i. n \<in> set (queue s) \<and> instr (h n) = Instr i \<and> \<not> valid (currentGroup s) i
             \<and> sched_body h valid s =
                 Inl (s\<lparr>queue := removeAll n (queue s), toUpdate := set_add n (toUpdate s)\<rparr>))"
proof (cases "queue s = []")
  case True
  then show ?thesis by (simp add: sched_body_empty)
next
  case False
  from sched_body_pop [OF False, of h valid] obtain n where n: "n \<in> set (queue s)"
    and body: "sched_body h valid s =
     (case instr (h n) of
        Start \<Rightarrow> finalize s (removeAll n (queue s))
      | Instr i \<Rightarrow>
          if valid (currentGroup s) i
          then Inl (s\<lparr>queue := removeAll n (queue s), currentGroup := currentGroup s @ [i],
                      scheduled := set_add n (scheduled s),
                      toUpdate := ready_children h (set_add n (scheduled s)) (succs (h n)) (toUpdate s)\<rparr>)
          else Inl (s\<lparr>queue := removeAll n (queue s), toUpdate := set_add n (toUpdate s)\<rparr>))"
    by blast
  have "1 \<le> n" "n \<le> N"
    using sets_invD(5) [OF sched_invD(7) [OF inv]] n by blast+
  then have "instr (h n) \<noteq> Start" by (rule dag_okD(4) [OF dag])
  then obtain i where i: "instr (h n) = Instr i" by (cases "instr (h n)") auto
  show ?thesis
  proof (cases "valid (currentGroup s) i")
    case True
    with n i body show ?thesis by auto
  next
    case False
    with n i body show ?thesis by auto
  qed
qed

lemma fold_set_add_Nil: "(fold set_add xs [] = []) = (xs = [])"
proof -
  have "set (fold set_add xs []) = set xs" by (simp add: fold_set_add_set)
  then show ?thesis by (metis set_empty)
qed

lemma finalize_forms:
  "finalize s [] =
     (case toGroup (currentGroup s) of
        Inl e \<Rightarrow> Inr (Inl e)
      | Inr g \<Rightarrow>
          if toUpdate s = [] then Inr (Inr (schedule s @ [g]))
          else Inl (s\<lparr>queue := fold set_add (toUpdate s) [], toUpdate := [], currentGroup := [],
                      schedule := schedule s @ [g]\<rparr>))"
  by (simp add: finalize_def Let_def fold_set_add_Nil split: sum.splits)

lemma sched_inv_body:
  assumes dag: "dag_ok h N" and inv: "sched_inv h N bs cur s"
  shows "case sched_body h valid s of
           Inl s' \<Rightarrow> \<exists>bs' cur'. sched_inv h N bs' cur' s'
         | Inr r \<Rightarrow> (case r of Inl e \<Rightarrow> contains_group (currentGroup s)
                      | Inr sched \<Rightarrow> \<exists>bs'. sched_done h N bs' sched)"
  using sched_body_forms [OF dag inv, of valid]
proof (elim disjE conjE exE)
  assume q: "queue s = []" and body: "sched_body h valid s = finalize s []"
  show ?thesis
  proof (cases "toGroup (currentGroup s)")
    case (Inl e)
    have "contains_group (currentGroup s)"
    proof (rule ccontr)
      assume "\<not> contains_group (currentGroup s)"
      then have "\<exists>g. toGroup (currentGroup s) = Inr g"
        unfolding toGroup_def by (simp add: toGroup_loop_no_group)
      with Inl show False by simp
    qed
    with Inl body show ?thesis by (simp add: finalize_forms)
  next
    case (Inr g)
    let ?s = "s\<lparr>queue := fold set_add (toUpdate s) [], toUpdate := [], currentGroup := [],
                 schedule := schedule s @ [g]\<rparr>"
    have fin: "sched_inv h N (bs @ [cur]) [] ?s"
      using inv q Inr by (rule sched_inv_finalize)
    show ?thesis
    proof (cases "toUpdate s = []")
      case True
      then have "sched_done h N (bs @ [cur]) (schedule s @ [g])"
        unfolding sched_done_def using fin by (intro exI [of _ ?s]) simp
      with Inr True body show ?thesis by (auto simp: finalize_forms)
    next
      case False
      with Inr body fin show ?thesis by (auto simp: finalize_forms)
    qed
  qed
next
  fix n i
  assume n: "n \<in> set (queue s)" and i: "instr (h n) = Instr i"
    and body: "sched_body h valid s =
                 Inl (s\<lparr>queue := removeAll n (queue s), currentGroup := currentGroup s @ [i],
                        scheduled := set_add n (scheduled s),
                        toUpdate := ready_children h (set_add n (scheduled s)) (succs (h n)) (toUpdate s)\<rparr>)"
  from sched_inv_commit [OF dag inv n i] body show ?thesis by auto
next
  fix n i
  assume n: "n \<in> set (queue s)"
    and body: "sched_body h valid s =
                 Inl (s\<lparr>queue := removeAll n (queue s), toUpdate := set_add n (toUpdate s)\<rparr>)"
  from sched_inv_reject [OF inv n] body show ?thesis by auto
qed

lemma seed_fold_set:
  "set (fold (\<lambda>n q. if preds (h n) = [] then set_add n q else q) xs q0)
     = set q0 \<union> {n \<in> set xs. preds (h n) = []}"
  by (induction xs arbitrary: q0) (auto simp: set_set_add)

lemma seed_queue_set: "set (seed_queue h dag) = {n \<in> succ_set h dag. pred_set h n = {}}"
  by (simp add: seed_queue_def seed_fold_set succ_set_def pred_set_def)

lemma sched_inv_init:
  assumes dag: "dag_ok h N"
  shows "sched_inv h N [] [] (sched_init h startNode)"
proof -
  note G = dag_okD [OF dag]
  have "sets_inv h N {n \<in> succ_set h startNode. pred_set h n = {}} {} {} {}"
    unfolding sets_inv_def G(1)
  proof (intro conjI ballI allI impI)
    show "m \<in> {n \<in> {Suc j | j. j < N}. pred_set h n = {}} \<union> {}"
      if "1 \<le> m \<and> m \<le> N \<and> m \<notin> {} \<and> pred_set h m \<subseteq> {}" for m
    proof -
      from that obtain j where "m = Suc j" "j < N" by (cases m) auto
      with that show ?thesis by auto
    qed
  qed auto
  then show ?thesis
    unfolding sched_inv_def by (simp add: sched_init_def seed_queue_set)
qed

lemma range_card: "card {n. 1 \<le> n \<and> n \<le> N} = N"
proof -
  have "{n. 1 \<le> n \<and> n \<le> N} = {1..N}" by auto
  then show ?thesis by simp
qed

lemma sched_body_decreases:
  assumes dag: "dag_ok h N" and inv: "sched_inv h N bs cur s"
    and valid: "\<And>c. valid [] c" and body: "sched_body h valid s = Inl s'"
  shows "(sched_measure N s', sched_measure N s) \<in> less_than <*lex*> less_than <*lex*> less_than"
  using sched_body_forms [OF dag inv, of valid]
proof (elim disjE conjE exE)
  assume q: "queue s = []" and fin: "sched_body h valid s = finalize s []"
  from body fin obtain g where "toUpdate s \<noteq> []"
    and s': "s' = s\<lparr>queue := fold set_add (toUpdate s) [], toUpdate := [], currentGroup := [],
                      schedule := schedule s @ [g]\<rparr>"
    by (auto simp: finalize_forms split: sum.splits if_splits)
  then have "queue s' \<noteq> []" "currentGroup s' = []" "scheduled s' = scheduled s"
    by (simp_all add: fold_set_add_Nil)
  with q show ?thesis by (simp add: sched_measure_def)
next
  fix n i
  assume n: "n \<in> set (queue s)"
    and b: "sched_body h valid s =
                 Inl (s\<lparr>queue := removeAll n (queue s), currentGroup := currentGroup s @ [i],
                        scheduled := set_add n (scheduled s),
                        toUpdate := ready_children h (set_add n (scheduled s)) (succs (h n)) (toUpdate s)\<rparr>)"
  note S = sets_invD [OF sched_invD(7) [OF inv]]
  have nS: "n \<notin> set (scheduled s)" using S(2) n by blast
  have "insert n (set (scheduled s)) \<subseteq> {n. 1 \<le> n \<and> n \<le> N}" using S(5) n by blast
  then have "card (insert n (set (scheduled s))) \<le> card {n. 1 \<le> n \<and> n \<le> N}"
    by (intro card_mono) simp_all
  then have "card (insert n (set (scheduled s))) \<le> N" unfolding range_card .
  then have "Suc (card (set (scheduled s))) \<le> N" using nS by simp
  moreover from body b have "scheduled s' = set_add n (scheduled s)" by auto
  then have "card (set (scheduled s')) = Suc (card (set (scheduled s)))"
    using nS by (simp add: set_set_add)
  ultimately have "N - card (set (scheduled s')) < N - card (set (scheduled s))" by arith
  then show ?thesis by (simp add: sched_measure_def)
next
  fix n i
  assume n: "n \<in> set (queue s)" and nv: "\<not> valid (currentGroup s) i"
    and b: "sched_body h valid s =
                 Inl (s\<lparr>queue := removeAll n (queue s), toUpdate := set_add n (toUpdate s)\<rparr>)"
  from nv valid have ne: "currentGroup s \<noteq> []" by auto
  from body b have s': "s' = s\<lparr>queue := removeAll n (queue s), toUpdate := set_add n (toUpdate s)\<rparr>"
    by simp
  have "length (removeAll n (queue s)) < length (queue s)"
    using n by (rule length_removeAll_less)
  with ne s' show ?thesis by (simp add: sched_measure_def)
qed

lemma sched_no_throw:
  assumes inv: "sched_inv h N bs cur s"
    and nog: "\<And>n i. 1 \<le> n \<Longrightarrow> n \<le> N \<Longrightarrow> instr (h n) = Instr i \<Longrightarrow> \<not> is_group i"
  shows "\<not> contains_group (currentGroup s)"
proof
  assume "contains_group (currentGroup s)"
  then obtain i where i: "i \<in> set (currentGroup s)" "is_group i"
    unfolding contains_group_def by (metis filter_False)
  then have "Instr i \<in> set (map Instr (currentGroup s))" by simp
  then have "Instr i \<in> set (map (\<lambda>n. instr (h n)) cur)"
    unfolding sched_invD(1) [OF inv] .
  then obtain n where n: "n \<in> set cur" "instr (h n) = Instr i" by auto
  from n(1) have "n \<in> set (scheduled s)" unfolding sched_invD(3) [OF inv] by simp
  with sets_invD(5) [OF sched_invD(7) [OF inv]] have "1 \<le> n" "n \<le> N" by blast+
  with nog n(2) i(2) show False by blast
qed

lemma sched_partial:
  assumes dag: "dag_ok h N"
    and run: "sched_while h valid (sched_init h startNode) = Some (Inr sched)"
  shows "\<exists>bs. sched_done h N bs sched"
proof -
  have "case (Inr sched :: error + instruction group list) of
          Inl e \<Rightarrow> True | Inr sched \<Rightarrow> \<exists>bs. sched_done h N bs sched"
  proof (rule sched_while_partial [where I = "\<lambda>s. \<exists>bs cur. sched_inv h N bs cur s"
        and P = "\<lambda>r. case r of Inl e \<Rightarrow> True | Inr sched \<Rightarrow> \<exists>bs. sched_done h N bs sched",
        OF run])
    show "\<exists>bs cur. sched_inv h N bs cur (sched_init h startNode)"
      using sched_inv_init [OF dag] by blast
  next
    fix s s'
    assume "\<exists>bs cur. sched_inv h N bs cur s" and body: "sched_body h valid s = Inl s'"
    then obtain bs cur where "sched_inv h N bs cur s" by blast
    from sched_inv_body [OF dag this, of valid] body
    show "\<exists>bs cur. sched_inv h N bs cur s'" by simp
  next
    fix s r
    assume "\<exists>bs cur. sched_inv h N bs cur s" and body: "sched_body h valid s = Inr r"
    then obtain bs cur where "sched_inv h N bs cur s" by blast
    from sched_inv_body [OF dag this, of valid] body
    show "case r of Inl e \<Rightarrow> True | Inr sched \<Rightarrow> \<exists>bs. sched_done h N bs sched"
      by (cases r) simp_all
  qed
  then show ?thesis by simp
qed

lemma sched_total:
  assumes dag: "dag_ok h N"
    and nog: "\<And>n i. 1 \<le> n \<Longrightarrow> n \<le> N \<Longrightarrow> instr (h n) = Instr i \<Longrightarrow> \<not> is_group i"
    and valid: "\<And>c. valid [] c"
  shows "\<exists>sched bs. sched_while h valid (sched_init h startNode) = Some (Inr sched)
           \<and> sched_done h N bs sched"
proof -
  let ?I = "\<lambda>s. \<exists>bs cur. sched_inv h N bs cur s"
  let ?R = "inv_image (less_than <*lex*> less_than <*lex*> less_than) (sched_measure N)"
  have init: "?I (sched_init h startNode)" using sched_inv_init [OF dag] by blast
  have step: "?I s' \<and> (s', s) \<in> ?R" if "?I s" and body: "sched_body h valid s = Inl s'" for s s'
  proof -
    from that obtain bs cur where inv: "sched_inv h N bs cur s" by blast
    from sched_inv_body [OF dag inv, of valid] body have "?I s'" by simp
    moreover from sched_body_decreases [OF dag inv valid body] have "(s', s) \<in> ?R" by simp
    ultimately show ?thesis by simp
  qed
  have "wf ?R" by (intro wf_inv_image wf_lex_prod wf_less_than)
  from sched_while_total [where I = ?I, OF this init step]
  obtain r where run: "sched_while h valid (sched_init h startNode) = Some r" by blast
  have "case r of Inl e \<Rightarrow> False | Inr sched \<Rightarrow> \<exists>bs. sched_done h N bs sched"
  proof (rule sched_while_partial [where I = ?I
        and P = "\<lambda>r. case r of Inl e \<Rightarrow> False | Inr sched \<Rightarrow> \<exists>bs. sched_done h N bs sched",
        OF run init])
    fix s s'
    assume "?I s" and "sched_body h valid s = Inl s'"
    then show "?I s'" using step by blast
  next
    fix s r'
    assume "?I s" and body: "sched_body h valid s = Inr r'"
    then obtain bs cur where inv: "sched_inv h N bs cur s" by blast
    from sched_inv_body [OF dag inv, of valid] body sched_no_throw [OF inv nog]
    show "case r' of Inl e \<Rightarrow> False | Inr sched \<Rightarrow> \<exists>bs. sched_done h N bs sched"
      by (cases r') simp_all
  qed
  with run show ?thesis by (cases r) auto
qed

lemma sched_done_facts:
  assumes "sched_done h N bs sched"
  shows "list_all2 (\<lambda>b g. \<exists>is. map (\<lambda>n. instr (h n)) b = map Instr is \<and> toGroup is = Inr g) bs sched"
    and "distinct (concat bs)"
    and "set (concat bs) \<subseteq> {n. 1 \<le> n \<and> n \<le> N}"
    and "\<And>j n. j < length bs \<Longrightarrow> n \<in> set (bs ! j) \<Longrightarrow> pred_set h n \<subseteq> set (concat (take j bs))"
    and "\<And>n. 1 \<le> n \<Longrightarrow> n \<le> N \<Longrightarrow> pred_set h n \<subseteq> set (concat bs) \<Longrightarrow> n \<in> set (concat bs)"
proof -
  from assms obtain s where inv: "sched_inv h N bs [] s"
    and e: "queue s = []" "toUpdate s = []" "schedule s = sched"
    unfolding sched_done_def by blast
  note I = sched_invD [OF inv]
  note S = sets_invD [OF I(7)]
  have sch: "set (scheduled s) = set (concat bs)" using I(3) by simp
  show "list_all2 (\<lambda>b g. \<exists>is. map (\<lambda>n. instr (h n)) b = map Instr is \<and> toGroup is = Inr g) bs sched"
    using I(2) e by simp
  show "distinct (concat bs)" using I(4) by simp
  show "set (concat bs) \<subseteq> {n. 1 \<le> n \<and> n \<le> N}" using S(5) unfolding sch by blast
  show "pred_set h n \<subseteq> set (concat (take j bs))" if "j < length bs" "n \<in> set (bs ! j)" for j n
    using that by (rule I(5))
  show "n \<in> set (concat bs)" if "1 \<le> n" "n \<le> N" "pred_set h n \<subseteq> set (concat bs)" for n
  proof (rule ccontr)
    assume "n \<notin> set (concat bs)"
    then have "n \<notin> set (scheduled s)" unfolding sch .
    moreover have "pred_set h n \<subseteq> set (scheduled s)" unfolding sch by (rule that(3))
    ultimately have "n \<in> set (queue s) \<union> set (toUpdate s)"
      using that(1,2) by (intro S(9))
    then show False unfolding e by simp
  qed
qed

lemma distinct_concat_index:
  "distinct (concat bs) \<Longrightarrow> i < length bs \<Longrightarrow> j < length bs \<Longrightarrow>
   a \<in> set (bs ! i) \<Longrightarrow> a \<in> set (bs ! j) \<Longrightarrow> i = j"
proof (induction bs arbitrary: i j)
  case Nil
  then show ?case by simp
next
  case (Cons b bs)
  from Cons.prems(1) have d: "distinct (concat bs)" and disj: "set b \<inter> set (concat bs) = {}"
    by simp_all
  show ?case
  proof (cases i)
    case 0
    show ?thesis
    proof (cases j)
      case (Suc j')
      with Cons.prems 0 have "a \<in> set b" "a \<in> set (concat bs)" by auto
      with disj show ?thesis by blast
    qed (simp add: 0)
  next
    case (Suc i')
    show ?thesis
    proof (cases j)
      case 0
      with Cons.prems Suc have "a \<in> set b" "a \<in> set (concat bs)" by auto
      with disj show ?thesis by blast
    next
      case (Suc j')
      with Cons.prems \<open>i = Suc i'\<close> Cons.IH [OF d, of i' j'] show ?thesis by simp
    qed
  qed
qed

lemma in_concat_take:
  assumes "a \<in> set (concat (take j bs))"
  shows "\<exists>i<j. i < length bs \<and> a \<in> set (bs ! i)"
proof -
  from assms obtain b where b: "b \<in> set (take j bs)" "a \<in> set b" by auto
  then obtain i where "i < length (take j bs)" "take j bs ! i = b"
    by (auto simp: in_set_conv_nth)
  with b show ?thesis by (intro exI [of _ i]) simp
qed

lemma sched_done_complete:
  assumes dag: "dag_ok h N" and strict: "\<And>a b. a \<in> pred_set h b \<Longrightarrow> a < b"
    and dn: "sched_done h N bs sched"
  shows "set (concat bs) = {n. 1 \<le> n \<and> n \<le> N}"
proof -
  note F = sched_done_facts [OF dn]
  have "1 \<le> n \<longrightarrow> n \<le> N \<longrightarrow> n \<in> set (concat bs)" for n
  proof (induction n rule: less_induct)
    case (less n)
    show ?case
    proof (intro impI)
      assume n: "1 \<le> n" "n \<le> N"
      have "pred_set h n \<subseteq> set (concat bs)"
      proof
        fix a assume a: "a \<in> pred_set h n"
        then have "a < n" by (rule strict)
        moreover from dag_okD(3) [OF dag a] n have "1 \<le> a" "a \<le> N" by simp_all
        ultimately show "a \<in> set (concat bs)" using less by blast
      qed
      with n show "n \<in> set (concat bs)" by (rule F(5))
    qed
  qed
  with F(3) show ?thesis by blast
qed

lemma sched_done_order:
  assumes dn: "sched_done h N bs sched"
    and i: "i < length bs" and j: "j < length bs"
    and a: "a \<in> set (bs ! i)" and b: "b \<in> set (bs ! j)" and edge: "a \<in> pred_set h b"
  shows "i < j"
proof -
  note F = sched_done_facts [OF dn]
  have "pred_set h b \<subseteq> set (concat (take j bs))" by (rule F(4) [OF j b])
  with edge have m: "a \<in> set (concat (take j bs))" by (rule set_mp [rotated])
  from in_concat_take [OF m] obtain i' where i': "i' < j" "i' < length bs" "a \<in> set (bs ! i')"
    by (elim exE conjE)
  have "i = i'" using F(2) i i'(2) a i'(3) by (rule distinct_concat_index)
  with i'(1) show ?thesis by simp
qed

lemma same_graph_sets:
  assumes "same_graph g h"
  shows "pred_set h n = pred_set g n" and "succ_set h n = succ_set g n" and "instr (h n) = instr (g n)"
  using assms by (simp_all add: same_graph_def pred_set_def succ_set_def)

lemma same_graph_dag_ok:
  assumes "dag_ok g N" and "same_graph g h"
  shows "dag_ok h N"
  using assms(1) unfolding dag_ok_def same_graph_sets [OF assms(2)] .

lemma toGroup_instrs:
  assumes "toGroup is = Inr g"
  shows "instrs g = filter has_dest is"
proof (cases "contains_group is")
  case True
  then have "toGroup is = Inl CannotNestGroups"
    unfolding toGroup_def by (rule toGroup_loop_group)
  with assms show ?thesis by simp
next
  case False
  from toGroup_loop_no_group [OF False, of "[]" "[]" "[]"] assms
  show ?thesis unfolding toGroup_def by auto
qed

lemma dataflow_node_instr:
  assumes same: "same_graph (fst (dataflow trace)) h" and n: "1 \<le> n" "n \<le> length trace"
  shows "instr (h n) = Instr (trace ! (n - 1))"
proof -
  from n obtain j where j: "n = Suc j" "j < length trace" by (cases n) auto
  then show ?thesis
    unfolding same_graph_sets(3) [OF same] by (simp add: dataflow_instr_at)
qed

lemma bundles_on_trace:
  assumes same: "same_graph (fst (dataflow trace)) h"
    and la: "list_all2 (\<lambda>b g. \<exists>is. map (\<lambda>n. instr (h n)) b = map Instr is \<and> toGroup is = Inr g)
               bs sched"
    and rng: "set (concat bs) \<subseteq> {n. 1 \<le> n \<and> n \<le> length trace}"
  shows "list_all2 (\<lambda>b g. toGroup (map (\<lambda>n. trace ! (n - 1)) b) = Inr g) bs sched"
  unfolding list_all2_conv_all_nth
proof (intro conjI allI impI)
  show "length bs = length sched" using la by (rule list_all2_lengthD)
  fix k assume k: "k < length bs"
  from la k obtain xs where ii: "map (\<lambda>n. instr (h n)) (bs ! k) = map Instr xs"
    "toGroup xs = Inr (sched ! k)"
    unfolding list_all2_conv_all_nth by blast
  have "bs ! k \<in> set bs" using k by simp
  then have "set (bs ! k) \<subseteq> set (concat bs)" by auto
  with rng have "\<And>n. n \<in> set (bs ! k) \<Longrightarrow> 1 \<le> n \<and> n \<le> length trace" by blast
  then have "map (\<lambda>n. instr (h n)) (bs ! k) = map Instr (map (\<lambda>n. trace ! (n - 1)) (bs ! k))"
    by (simp add: dataflow_node_instr [OF same])
  with ii(1) have "map Instr xs = map Instr (map (\<lambda>n. trace ! (n - 1)) (bs ! k))" by simp
  then have "xs = map (\<lambda>n. trace ! (n - 1)) (bs ! k)"
    by (rule map_injective) (simp add: inj_def)
  with ii(2) show "toGroup (map (\<lambda>n. trace ! (n - 1)) (bs ! k)) = Inr (sched ! k)" by simp
qed

lemma concat_instrs:
  "list_all2 (\<lambda>b g. toGroup (map f b) = Inr g) bs sched \<Longrightarrow>
   concat (map instrs sched) = filter has_dest (map f (concat bs))"
  by (induction bs sched rule: list_all2_induct) (simp_all add: toGroup_instrs)

lemma trace_positions: "(\<lambda>n. trace ! (n - 1)) ` {n. 1 \<le> n \<and> n \<le> length trace} = set trace"
proof
  show "(\<lambda>n. trace ! (n - 1)) ` {n. 1 \<le> n \<and> n \<le> length trace} \<subseteq> set trace"
    by auto
  show "set trace \<subseteq> (\<lambda>n. trace ! (n - 1)) ` {n. 1 \<le> n \<and> n \<le> length trace}"
  proof
    fix i assume "i \<in> set trace"
    then obtain j where j: "j < length trace" "trace ! j = i" by (auto simp: in_set_conv_nth)
    then have "Suc j \<in> {n. 1 \<le> n \<and> n \<le> length trace}" "trace ! (Suc j - 1) = i" by simp_all
    then show "i \<in> (\<lambda>n. trace ! (n - 1)) ` {n. 1 \<le> n \<and> n \<le> length trace}" by blast
  qed
qed

lemma trace_positions_inj:
  assumes "distinct trace"
  shows "inj_on (\<lambda>n. trace ! (n - 1)) {n. 1 \<le> n \<and> n \<le> length trace}"
proof (rule inj_onI)
  fix n m
  assume n: "n \<in> {n. 1 \<le> n \<and> n \<le> length trace}" and m: "m \<in> {n. 1 \<le> n \<and> n \<le> length trace}"
    and eq: "trace ! (n - 1) = trace ! (m - 1)"
  from n m have "n - 1 < length trace" "m - 1 < length trace" by auto
  with assms eq have "n - 1 = m - 1" by (simp add: nth_eq_iff_index_eq)
  moreover from n m have "1 \<le> n" "1 \<le> m" by simp_all
  ultimately show "n = m" by arith
qed

text \<open>
  C3. Let the schedule be returned by listSchedule on the graph of dataflow (with any
  priorities). The groups are the materialized bundles of nodes, no node is in two bundles, and
  for every dependence edge from node \<open>a\<close> to node \<open>b\<close> with both nodes scheduled, the
  bundle of \<open>a\<close> comes strictly before the bundle of \<open>b\<close>: its index is less or equal,
  and the two never share a group. When the instructions of the trace are pairwise distinct,
  the same holds read on the instructions found in the groups.
\<close>

theorem listSchedule_respects_dependences:
  assumes same: "same_graph (fst (dataflow trace)) h"
    and run: "listSchedule (h, startNode) valid = Some (Inr sched)"
  shows "\<exists>bundles.
           list_all2 (\<lambda>b g. toGroup (map (\<lambda>n. trace ! (n - 1)) b) = Inr g) bundles sched
         \<and> distinct (concat bundles)
         \<and> (\<forall>i j a b. i < length bundles \<and> j < length bundles
                \<and> a \<in> set (bundles ! i) \<and> b \<in> set (bundles ! j)
                \<and> b \<in> set (succs (h a)) \<longrightarrow> i < j)
         \<and> (distinct trace \<longrightarrow>
               (\<forall>i j a b. i < length sched \<and> j < length sched
                  \<and> a < length trace \<and> b < length trace
                  \<and> trace ! a \<in> set (instrs (sched ! i)) \<and> trace ! b \<in> set (instrs (sched ! j))
                  \<and> Suc b \<in> set (succs (h (Suc a))) \<longrightarrow> i < j))"
proof -
  let ?N = "length trace"
  let ?f = "\<lambda>n. trace ! (n - 1)"
  have dag: "dag_ok h ?N" using dataflow_dag_ok same by (rule same_graph_dag_ok)
  from run have "sched_while h valid (sched_init h startNode) = Some (Inr sched)"
    by (simp add: listSchedule_def)
  from sched_partial [OF dag this] obtain bs where dn: "sched_done h ?N bs sched" by blast
  note F = sched_done_facts [OF dn]
  have la: "list_all2 (\<lambda>b g. toGroup (map ?f b) = Inr g) bs sched"
    using same F(1) F(3) by (rule bundles_on_trace)
  have len: "length bs = length sched" using la by (rule list_all2_lengthD)
  have rng: "1 \<le> n \<and> n \<le> ?N" if "k < length bs" "n \<in> set (bs ! k)" for k n
  proof -
    from that(1) have "bs ! k \<in> set bs" by simp
    with that(2) have "n \<in> set (concat bs)" by auto
    with F(3) show ?thesis by blast
  qed
  have node: "i < j"
    if "i < length bs" "j < length bs" "a \<in> set (bs ! i)" "b \<in> set (bs ! j)" "b \<in> set (succs (h a))"
    for i j a b
  proof -
    from rng [OF that(1,3)] have "a \<noteq> startNode" by (simp add: startNode_def)
    from dag_okD(2) [OF dag this, of b] that(5) have "a \<in> pred_set h b" by (simp add: succ_set_def)
    with dn that(1-4) show ?thesis by (rule sched_done_order)
  qed
  have pos: "Suc a \<in> set (bs ! i)"
    if dt: "distinct trace" and i: "i < length bs" and a: "a < ?N"
      and mem: "trace ! a \<in> set (instrs (sched ! i))" for i a
  proof -
    from la i have "toGroup (map ?f (bs ! i)) = Inr (sched ! i)"
      by (simp add: list_all2_conv_all_nth)
    then have "instrs (sched ! i) = filter has_dest (map ?f (bs ! i))" by (rule toGroup_instrs)
    with mem obtain n where n: "n \<in> set (bs ! i)" "trace ! (n - 1) = trace ! a" by auto
    from rng [OF i n(1)] have r: "1 \<le> n" "n - 1 < ?N" by auto
    with dt n(2) a have "n - 1 = a" by (simp add: nth_eq_iff_index_eq)
    with r have "n = Suc a" by simp
    with n show ?thesis by simp
  qed
  have instr_level: "i < j"
    if "distinct trace" "i < length sched" "j < length sched" "a < ?N" "b < ?N"
      "trace ! a \<in> set (instrs (sched ! i))" "trace ! b \<in> set (instrs (sched ! j))"
      "Suc b \<in> set (succs (h (Suc a)))" for i j a b
  proof -
    from that len have i: "i < length bs" and j: "j < length bs" by simp_all
    from pos [OF that(1) i that(4) that(6)] pos [OF that(1) j that(5) that(7)] that(8)
    show ?thesis by (intro node [OF i j])
  qed
  show ?thesis
  proof (intro exI [of _ bs] conjI allI impI)
    show "list_all2 (\<lambda>b g. toGroup (map ?f b) = Inr g) bs sched" by (rule la)
    show "distinct (concat bs)" by (rule F(2))
    show "i < j" if "i < length bs \<and> j < length bs \<and> a \<in> set (bs ! i) \<and> b \<in> set (bs ! j)
        \<and> b \<in> set (succs (h a))" for i j a b
      using that node by blast
    show "i < j" if "distinct trace" and "i < length sched \<and> j < length sched
        \<and> a < length trace \<and> b < length trace
        \<and> trace ! a \<in> set (instrs (sched ! i)) \<and> trace ! b \<in> set (instrs (sched ! j))
        \<and> Suc b \<in> set (succs (h (Suc a)))" for i j a b
      using that instr_level by blast
  qed
qed

theorem listSchedule_respects_dependences_witness:
  "same_graph (fst (dataflow [Constant (NumV 5) ''x'' TInt, ValueOperation OpId [''x''] ''y'' TInt])) (fst (dataflow [Constant (NumV 5) ''x'' TInt, ValueOperation OpId [''x''] ''y'' TInt]))
   \<and> listSchedule (fst (dataflow [Constant (NumV 5) ''x'' TInt, ValueOperation OpId [''x''] ''y'' TInt]), startNode) (\<lambda>g c. True) = Some (Inr [Group [] [Constant (NumV 5) ''x'' TInt] [], Group [] [ValueOperation OpId [''x''] ''y'' TInt] []])
   \<and> (\<exists>bundles.
           list_all2 (\<lambda>b g. toGroup (map (\<lambda>n. [Constant (NumV 5) ''x'' TInt, ValueOperation OpId [''x''] ''y'' TInt] ! (n - 1)) b) = Inr g) bundles [Group [] [Constant (NumV 5) ''x'' TInt] [], Group [] [ValueOperation OpId [''x''] ''y'' TInt] []]
         \<and> distinct (concat bundles)
         \<and> (\<forall>i j a b. i < length bundles \<and> j < length bundles
                \<and> a \<in> set (bundles ! i) \<and> b \<in> set (bundles ! j)
                \<and> b \<in> set (succs (fst (dataflow [Constant (NumV 5) ''x'' TInt, ValueOperation OpId [''x''] ''y'' TInt]) a)) \<longrightarrow> i < j)
         \<and> (distinct [Constant (NumV 5) ''x'' TInt, ValueOperation OpId [''x''] ''y'' TInt] \<longrightarrow>
               (\<forall>i j a b. i < length [Group [] [Constant (NumV 5) ''x'' TInt] [], Group [] [ValueOperation OpId [''x''] ''y'' TInt] []] \<and> j < length [Group [] [Constant (NumV 5) ''x'' TInt] [], Group [] [ValueOperation OpId [''x''] ''y'' TInt] []]
                  \<and> a < length [Constant (NumV 5) ''x'' TInt, ValueOperation OpId [''x''] ''y'' TInt] \<and> b < length [Constant (NumV 5) ''x'' TInt, ValueOperation OpId [''x''] ''y'' TInt]
                  \<and> [Constant (NumV 5) ''x'' TInt, ValueOperation OpId [''x''] ''y'' TInt] ! a \<in> set (instrs ([Group [] [Constant (NumV 5) ''x'' TInt] [], Group [] [ValueOperation OpId [''x''] ''y'' TInt] []] ! i)) \<and> [Constant (NumV 5) ''x'' TInt, ValueOperation OpId [''x''] ''y'' TInt] ! b \<in> set (instrs ([Group [] [Constant (NumV 5) ''x'' TInt] [], Group [] [ValueOperation OpId [''x''] ''y'' TInt] []] ! j))
                  \<and> Suc b \<in> set (succs (fst (dataflow [Constant (NumV 5) ''x'' TInt, ValueOperation OpId [''x''] ''y'' TInt]) (Suc a))) \<longrightarrow> i < j)))"
proof -
  have s: "same_graph (fst (dataflow [Constant (NumV 5) ''x'' TInt, ValueOperation OpId [''x''] ''y'' TInt])) (fst (dataflow [Constant (NumV 5) ''x'' TInt, ValueOperation OpId [''x''] ''y'' TInt]))"
    by (simp add: same_graph_def)
  have r: "listSchedule (fst (dataflow [Constant (NumV 5) ''x'' TInt, ValueOperation OpId [''x''] ''y'' TInt]), startNode) (\<lambda>g c. True) = Some (Inr [Group [] [Constant (NumV 5) ''x'' TInt] [], Group [] [ValueOperation OpId [''x''] ''y'' TInt] []])"
    by code_simp
  show ?thesis
    by (intro conjI s r listSchedule_respects_dependences [OF s r])
qed

text \<open>
  C1 (as amended). For a trace without groups in which no instruction lists its own
  destination among its arguments, and a validity predicate that accepts every candidate for
  the empty bundle, listSchedule on the graph of dataflow (with any priorities) returns a
  schedule. Its groups are the materialized bundles of nodes, every node of the trace is in
  exactly one bundle, and the instructions of all groups together are exactly the instructions
  of the trace that have a destination; no instruction occurs twice in the groups when the
  instructions of the trace are pairwise distinct.
\<close>

theorem listSchedule_schedules_every_instruction:
  assumes same: "same_graph (fst (dataflow trace)) h"
    and nogroup: "\<not> contains_group trace"
    and noself: "filter reads_own_dest trace = []"
    and valid: "\<And>c. valid [] c"
  shows "\<exists>sched bundles.
           listSchedule (h, startNode) valid = Some (Inr sched)
         \<and> list_all2 (\<lambda>b g. toGroup (map (\<lambda>n. trace ! (n - 1)) b) = Inr g) bundles sched
         \<and> distinct (concat bundles)
         \<and> set (concat bundles) = {n. 1 \<le> n \<and> n \<le> length trace}
         \<and> (\<Union>g\<in>set sched. set (instrs g)) = {i \<in> set trace. has_dest i}
         \<and> (distinct trace \<longrightarrow> distinct (concat (map instrs sched)))"
proof -
  let ?N = "length trace"
  let ?f = "\<lambda>n. trace ! (n - 1)"
  have dag: "dag_ok h ?N" using dataflow_dag_ok same by (rule same_graph_dag_ok)
  have nog: "\<not> is_group i" if "1 \<le> n" "n \<le> ?N" "instr (h n) = Instr i" for n i
  proof -
    from dataflow_node_instr [OF same that(1,2)] that(3) have "i = trace ! (n - 1)" by simp
    moreover from that have "n - 1 < ?N" by simp
    ultimately have "i \<in> set trace" by simp
    with nogroup show ?thesis unfolding contains_group_def by (auto simp: filter_empty_conv)
  qed
  have strict: "a < b" if "a \<in> pred_set h b" for a b
  proof -
    from that have "a \<in> dep_preds trace b"
      unfolding same_graph_sets(1) [OF same] dataflow_pred_set .
    moreover have "\<not> reads_own_dest i" if "i \<in> set trace" for i
      using noself that by (auto simp: filter_empty_conv)
    ultimately show ?thesis using dep_preds_strict by blast
  qed
  have "\<exists>sched bs. sched_while h valid (sched_init h startNode) = Some (Inr sched)
           \<and> sched_done h ?N bs sched"
  proof (rule sched_total [OF dag])
    show "\<not> is_group i" if "1 \<le> n" "n \<le> ?N" "instr (h n) = Instr i" for n i
      using that by (rule nog)
    show "valid [] c" for c by (rule valid)
  qed
  then obtain sched bs where
    run: "sched_while h valid (sched_init h startNode) = Some (Inr sched)"
    and dn: "sched_done h ?N bs sched" by blast
  note F = sched_done_facts [OF dn]
  have all: "set (concat bs) = {n. 1 \<le> n \<and> n \<le> ?N}"
    using dag strict dn by (rule sched_done_complete)
  have la: "list_all2 (\<lambda>b g. toGroup (map ?f b) = Inr g) bs sched"
    using same F(1) F(3) by (rule bundles_on_trace)
  have cc: "concat (map instrs sched) = filter has_dest (map ?f (concat bs))"
    using la by (rule concat_instrs)
  have "(\<Union>g\<in>set sched. set (instrs g)) = set (concat (map instrs sched))" by simp
  also have "\<dots> = {i \<in> ?f ` set (concat bs). has_dest i}" unfolding cc by auto
  also have "\<dots> = {i \<in> set trace. has_dest i}" unfolding all trace_positions ..
  finally have un: "(\<Union>g\<in>set sched. set (instrs g)) = {i \<in> set trace. has_dest i}" .
  have dist: "distinct (concat (map instrs sched))" if "distinct trace"
  proof -
    from trace_positions_inj [OF that] have "inj_on ?f (set (concat bs))" unfolding all .
    with F(2) have "distinct (map ?f (concat bs))" by (simp add: distinct_map)
    then show ?thesis unfolding cc by (rule distinct_filter)
  qed
  from run have "listSchedule (h, startNode) valid = Some (Inr sched)"
    by (simp add: listSchedule_def)
  with la F(2) all un dist show ?thesis by blast
qed

theorem listSchedule_schedules_every_instruction_witness:
  "same_graph (fst (dataflow [Constant (NumV 5) ''x'' TInt, ValueOperation OpId [''x''] ''y'' TInt])) (fst (dataflow [Constant (NumV 5) ''x'' TInt, ValueOperation OpId [''x''] ''y'' TInt]))
   \<and> \<not> contains_group [Constant (NumV 5) ''x'' TInt, ValueOperation OpId [''x''] ''y'' TInt]
   \<and> filter reads_own_dest [Constant (NumV 5) ''x'' TInt, ValueOperation OpId [''x''] ''y'' TInt] = []
   \<and> (\<forall>c. (\<lambda>g c. g = []) [] c)
   \<and> (\<exists>sched bundles.
           listSchedule (fst (dataflow [Constant (NumV 5) ''x'' TInt, ValueOperation OpId [''x''] ''y'' TInt]), startNode) (\<lambda>g c. g = []) = Some (Inr sched)
         \<and> list_all2 (\<lambda>b g. toGroup (map (\<lambda>n. [Constant (NumV 5) ''x'' TInt, ValueOperation OpId [''x''] ''y'' TInt] ! (n - 1)) b) = Inr g) bundles sched
         \<and> distinct (concat bundles)
         \<and> set (concat bundles) = {n. 1 \<le> n \<and> n \<le> length [Constant (NumV 5) ''x'' TInt, ValueOperation OpId [''x''] ''y'' TInt]}
         \<and> (\<Union>g\<in>set sched. set (instrs g)) = {i \<in> set [Constant (NumV 5) ''x'' TInt, ValueOperation OpId [''x''] ''y'' TInt]. has_dest i}
         \<and> (distinct [Constant (NumV 5) ''x'' TInt, ValueOperation OpId [''x''] ''y'' TInt] \<longrightarrow> distinct (concat (map instrs sched))))"
proof -
  have s: "same_graph (fst (dataflow [Constant (NumV 5) ''x'' TInt, ValueOperation OpId [''x''] ''y'' TInt])) (fst (dataflow [Constant (NumV 5) ''x'' TInt, ValueOperation OpId [''x''] ''y'' TInt]))"
    by (simp add: same_graph_def)
  have g: "\<not> contains_group [Constant (NumV 5) ''x'' TInt, ValueOperation OpId [''x''] ''y'' TInt]"
    by (simp add: contains_group_def)
  have o: "filter reads_own_dest [Constant (NumV 5) ''x'' TInt, ValueOperation OpId [''x''] ''y'' TInt] = []"
    by (simp add: reads_own_dest_def arg_set_def)
  have v: "\<And>c. (\<lambda>g c. g = []) [] c" by simp
  have vv: "\<forall>c. (\<lambda>g c. g = []) [] c" by simp
  show ?thesis
    by (intro conjI s g o vv
        listSchedule_schedules_every_instruction [where valid = "\<lambda>g c. g = []", OF s g o v])
qed

section \<open>listSchedule on a trace that holds a group\<close>

text \<open>
  Without the assumption that toGroup cannot throw, the loop still ends when the validity
  predicate accepts every candidate for the empty bundle: with an error, or with a schedule
  made from bundles that satisfy the invariants.
\<close>

lemma sched_returns:
  assumes dag: "dag_ok h N" and valid: "\<And>c. valid [] c"
  shows "\<exists>r. sched_while h valid (sched_init h startNode) = Some r
           \<and> (case r of Inl e \<Rightarrow> True | Inr sched \<Rightarrow> \<exists>bs. sched_done h N bs sched)"
proof -
  let ?I = "\<lambda>s. \<exists>bs cur. sched_inv h N bs cur s"
  let ?R = "inv_image (less_than <*lex*> less_than <*lex*> less_than) (sched_measure N)"
  have init: "?I (sched_init h startNode)" using sched_inv_init [OF dag] by blast
  have step: "?I s' \<and> (s', s) \<in> ?R" if "?I s" and body: "sched_body h valid s = Inl s'" for s s'
  proof -
    from that obtain bs cur where inv: "sched_inv h N bs cur s" by blast
    from sched_inv_body [OF dag inv, of valid] body have "?I s'" by simp
    moreover from sched_body_decreases [OF dag inv valid body] have "(s', s) \<in> ?R" by simp
    ultimately show ?thesis by simp
  qed
  have "wf ?R" by (intro wf_inv_image wf_lex_prod wf_less_than)
  from sched_while_total [where I = ?I, OF this init step]
  obtain r where run: "sched_while h valid (sched_init h startNode) = Some r" by blast
  have "case r of Inl e \<Rightarrow> True | Inr sched \<Rightarrow> \<exists>bs. sched_done h N bs sched"
  proof (rule sched_while_partial [where I = ?I
        and P = "\<lambda>r. case r of Inl e \<Rightarrow> True | Inr sched \<Rightarrow> \<exists>bs. sched_done h N bs sched",
        OF run init])
    fix s s'
    assume "?I s" and "sched_body h valid s = Inl s'"
    then show "?I s'" using step by blast
  next
    fix s r'
    assume "?I s" and body: "sched_body h valid s = Inr r'"
    then obtain bs cur where inv: "sched_inv h N bs cur s" by blast
    from sched_inv_body [OF dag inv, of valid] body
    show "case r' of Inl e \<Rightarrow> True | Inr sched \<Rightarrow> \<exists>bs. sched_done h N bs sched"
      by (cases r') simp_all
  qed
  with run show ?thesis by blast
qed

text \<open>The node of a group has no predecessor: a group has neither destination nor arguments.\<close>

lemma group_node_no_preds:
  assumes k: "k < length trace" and g: "is_group (trace ! k)"
  shows "dep_preds trace (Suc k) = {}"
proof -
  from g have "dest_of (trace ! k) = None" "arg_set (trace ! k) = {}"
    by (cases "trace ! k"; simp add: arg_set_def)+
  then show ?thesis unfolding dep_preds_def by simp
qed

text \<open>
  On a trace that holds a group, with a validity predicate that accepts every candidate for
  the empty bundle, listSchedule throws: the node of the group is ready from the start, so it
  is scheduled before the loop can end, and its bundle cannot be materialized.
\<close>

lemma listSchedule_raises_on_group:
  assumes same: "same_graph (fst (dataflow trace)) h"
    and grp: "contains_group trace"
    and valid: "\<And>c. valid [] c"
  shows "listSchedule (h, startNode) valid = Some (Inl CannotNestGroups)"
proof -
  let ?N = "length trace"
  have dag: "dag_ok h ?N" using dataflow_dag_ok same by (rule same_graph_dag_ok)
  from grp obtain i where "i \<in> set trace" "is_group i"
    unfolding contains_group_def by (metis filter_False)
  then obtain k where k: "k < ?N" "is_group (trace ! k)" by (auto simp: in_set_conv_nth)
  have ins: "instr (h (Suc k)) = Instr (trace ! k)"
    using dataflow_node_instr [OF same, of "Suc k"] k by simp
  have np: "pred_set h (Suc k) = {}"
    unfolding same_graph_sets(1) [OF same] dataflow_pred_set using k by (rule group_node_no_preds)
  have "\<exists>r. sched_while h valid (sched_init h startNode) = Some r
           \<and> (case r of Inl e \<Rightarrow> True | Inr sched \<Rightarrow> \<exists>bs. sched_done h ?N bs sched)"
    using dag
  proof (rule sched_returns)
    show "valid [] c" for c by (rule valid)
  qed
  then obtain r where run: "sched_while h valid (sched_init h startNode) = Some r"
    and post: "case r of Inl e \<Rightarrow> True | Inr sched \<Rightarrow> \<exists>bs. sched_done h ?N bs sched" by blast
  have "r = Inl CannotNestGroups"
  proof (cases r)
    case (Inl e)
    then show ?thesis by (cases e) simp
  next
    case (Inr sched)
    with post obtain bs where dn: "sched_done h ?N bs sched" by auto
    note F = sched_done_facts [OF dn]
    have "Suc k \<in> set (concat bs)"
    proof (rule F(5))
      show "1 \<le> Suc k" by simp
      show "Suc k \<le> ?N" using k by simp
      show "pred_set h (Suc k) \<subseteq> set (concat bs)" unfolding np by simp
    qed
    then obtain b where b: "b \<in> set bs" "Suc k \<in> set b" by auto
    then obtain j where j: "j < length bs" "bs ! j = b" by (auto simp: in_set_conv_nth)
    from F(1) j(1) obtain xs where xs: "map (\<lambda>n. instr (h n)) (bs ! j) = map Instr xs"
      "toGroup xs = Inr (sched ! j)"
      unfolding list_all2_conv_all_nth by blast
    from b(2) j(2) have "instr (h (Suc k)) \<in> set (map (\<lambda>n. instr (h n)) (bs ! j))" by simp
    then have "Instr (trace ! k) \<in> set (map Instr xs)" unfolding xs(1) ins .
    then have "trace ! k \<in> set xs" by auto
    with k(2) have "contains_group xs"
      unfolding contains_group_def by (auto simp: filter_empty_conv)
    then have "toGroup xs = Inl CannotNestGroups"
      unfolding toGroup_def by (rule toGroup_loop_group)
    with xs(2) show ?thesis by simp
  qed
  with run show ?thesis by (simp add: listSchedule_def)
qed

end
